theory Spec2Isabelle
  imports Main "HOL-Library.AList"
begin

section \<open>Values\<close>

text \<open>
  The helpers of this repository work on data: primitives, arrays and plain objects. A
  value is a tree. An array is the list of its slots, an empty slot being \<open>None\<close>, together
  with the named (non-index) properties attached to it; an object is the list of its own
  entries in the order in which the host enumerates them. Numbers are the integers that the
  host represents exactly. A function occurs only as the replacement argument of a write (a
  value transformer), never inside the data.

  The module is strict-mode code. A call has one of four outcomes:
  \<^item> \<open>Some (Ok v)\<close>: it returns \<open>v\<close>;
  \<^item> \<open>Some Raise\<close>: it raises an exception (TypeError or RangeError);
  \<^item> \<open>Some Outside\<close>: it reaches something that these values do not describe, namely a
    member inherited from a built-in prototype (\<open>toString\<close>, \<open>constructor\<close>, \<open>__proto__\<close>,
    \<open>map\<close>, ...), a change of prototype, or a conversion of a string to a number that is
    not spelled out here; nothing is said about such a call;
  \<^item> \<open>None\<close>: the recursion does not end.
\<close>

datatype val = Undefined | Null | Bool bool | Num int | Str string
  | Arr "val option list" "(string \<times> val) list" | Obj "(string \<times> val) list"

datatype 'a res = Ok 'a | Raise | Outside

text \<open>The optional fourth argument of the two finders: a literal or a value transformer.\<close>

datatype repl = Lit val | Trans "val \<Rightarrow> val"

text \<open>A property name as the code passes it: a string segment, or a number (an index).\<close>

datatype pkey = PStr string | PNum nat

text \<open>What a property lookup finds: a stored value, nothing, or an inherited member.\<close>

datatype 'v slot = Stored 'v | Absent | Member

text \<open>\<open>getObjectType\<close> (src/es/get-type.js): the lower-cased class tag of a value.\<close>

fun getObjectType :: "val \<Rightarrow> string" where
  "getObjectType Undefined = ''undefined''"
| "getObjectType Null = ''null''"
| "getObjectType (Bool b) = ''boolean''"
| "getObjectType (Num n) = ''number''"
| "getObjectType (Str s) = ''string''"
| "getObjectType (Arr xs ps) = ''array''"
| "getObjectType (Obj kvs) = ''object''"

text \<open>\<open>value === undefined\<close> on the replacement argument.\<close>

fun is_undefined :: "repl \<Rightarrow> bool" where
  "is_undefined (Lit Undefined) = True"
| "is_undefined r = False"

subsection \<open>Sequencing\<close>

text \<open>The rest of a computation runs when its first part returns.\<close>

definition bind_res :: "'a res \<Rightarrow> ('a \<Rightarrow> 'b res) \<Rightarrow> 'b res" where
  "bind_res m f = (case m of Ok x \<Rightarrow> f x | Raise \<Rightarrow> Raise | Outside \<Rightarrow> Outside)"

definition bnd :: "'a res option \<Rightarrow> ('a \<Rightarrow> 'b res option) \<Rightarrow> 'b res option" where
  "bnd m f =
     (case m of
        None \<Rightarrow> None
      | Some r \<Rightarrow> (case r of Ok x \<Rightarrow> f x | Raise \<Rightarrow> Some Raise | Outside \<Rightarrow> Some Outside))"

lemma bind_res_simps [simp, code]:
  "bind_res (Ok x) f = f x" "bind_res Raise f = Raise" "bind_res Outside f = Outside"
  by (simp_all add: bind_res_def)

lemma bnd_simps [simp, code]:
  "bnd None f = None" "bnd (Some (Ok x)) f = f x"
  "bnd (Some Raise) f = Some Raise" "bnd (Some Outside) f = Some Outside"
  by (simp_all add: bnd_def)

lemma bnd_cong [fundef_cong]:
  "m = m' \<Longrightarrow> (\<And>x. m' = Some (Ok x) \<Longrightarrow> f x = f' x) \<Longrightarrow> bnd m f = bnd m' f'"
  by (auto simp: bnd_def split: option.splits res.splits)

lemma bind_res_cong [fundef_cong]:
  "m = m' \<Longrightarrow> (\<And>x. m' = Ok x \<Longrightarrow> f x = f' x) \<Longrightarrow> bind_res m f = bind_res m' f'"
  by (auto simp: bind_res_def split: res.splits)

lemma bnd_mono [partial_function_mono]:
  assumes mf: "mono_option B" and mg: "\<And>y. mono_option (\<lambda>f. C y f)"
  shows "mono_option (\<lambda>f. bnd (B f) (\<lambda>y. C y f))"
proof (rule monotoneI)
  fix f g :: "'a \<Rightarrow> 'b option"
  assume fg: "fun_ord option_ord f g"
  have B: "option_ord (B f) (B g)" using mf fg unfolding monotone_def by blast
  have C: "option_ord (C y f) (C y g)" for y using mg[of y] fg unfolding monotone_def by blast
  show "option_ord (bnd (B f) (\<lambda>y. C y f)) (bnd (B g) (\<lambda>y. C y g))"
  proof (cases "B f")
    case None
    then show ?thesis by (simp add: flat_ord_def)
  next
    case (Some r)
    with B have "B g = Some r" by (simp add: flat_ord_def)
    with Some C show ?thesis by (cases r) (simp_all add: flat_ord_def)
  qed
qed

subsection \<open>Loops\<close>

text \<open>\<open>while (c) body\<close>, \<open>forEach\<close> and \<open>map\<close> with a body that may fail.\<close>

partial_function (option)
  whileM :: "('s \<Rightarrow> bool) \<Rightarrow> ('s \<Rightarrow> 's res option) \<Rightarrow> 's \<Rightarrow> 's res option" where
  "whileM c b s = (if c s then bnd (b s) (whileM c b) else Some (Ok s))"

declare whileM.simps [code]

primrec forEachM :: "('a \<Rightarrow> 's \<Rightarrow> 's res option) \<Rightarrow> 'a list \<Rightarrow> 's \<Rightarrow> 's res option" where
  "forEachM body [] s = Some (Ok s)"
| "forEachM body (x # xs) s = bnd (body x s) (forEachM body xs)"

primrec mapM :: "('a \<Rightarrow> 'b res option) \<Rightarrow> 'a list \<Rightarrow> 'b list res option" where
  "mapM f [] = Some (Ok [])"
| "mapM f (x # xs) = bnd (f x) (\<lambda>y. bnd (mapM f xs) (\<lambda>ys. Some (Ok (y # ys))))"

text \<open>A test of every element in turn that stops at the first failure.\<close>

primrec all_res :: "('a \<Rightarrow> bool res) \<Rightarrow> 'a list \<Rightarrow> bool res" where
  "all_res f [] = Ok True"
| "all_res f (x # xs) = bind_res (f x) (\<lambda>b. if b then all_res f xs else Ok False)"

primrec fold_res :: "('a \<Rightarrow> 's \<Rightarrow> 's res) \<Rightarrow> 'a list \<Rightarrow> 's \<Rightarrow> 's res" where
  "fold_res body [] s = Ok s"
| "fold_res body (x # xs) s = bind_res (body x s) (fold_res body xs)"

lemma forEachM_cong [fundef_cong]:
  "xs = ys \<Longrightarrow> s = t \<Longrightarrow> (\<And>x s'. x \<in> set ys \<Longrightarrow> f x s' = g x s')
     \<Longrightarrow> forEachM f xs s = forEachM g ys t"
proof (induction ys arbitrary: xs s t)
  case Nil
  then show ?case by simp
next
  case (Cons y ys)
  then have "f y t = g y t" by simp
  moreover have "forEachM f ys s' = forEachM g ys s'" for s'
    using Cons.prems(3) by (intro Cons.IH) simp_all
  ultimately show ?case using Cons.prems(1,2) by (simp cong: bnd_cong)
qed

lemma mapM_cong [fundef_cong]:
  "xs = ys \<Longrightarrow> (\<And>x. x \<in> set ys \<Longrightarrow> f x = g x) \<Longrightarrow> mapM f xs = mapM g ys"
  by (induction ys arbitrary: xs) (auto cong: bnd_cong)

lemma all_res_cong [fundef_cong]:
  "xs = ys \<Longrightarrow> (\<And>x. x \<in> set ys \<Longrightarrow> f x = g x) \<Longrightarrow> all_res f xs = all_res g ys"
proof (induction ys arbitrary: xs)
  case Nil
  then show ?case by simp
next
  case (Cons y ys)
  then have "all_res f ys = all_res g ys" "f y = g y" by simp_all
  with Cons.prems(1) show ?case by (simp cong: if_cong)
qed

lemma fold_res_cong [fundef_cong]:
  "xs = ys \<Longrightarrow> s = t \<Longrightarrow> (\<And>x s'. x \<in> set ys \<Longrightarrow> f x s' = g x s')
     \<Longrightarrow> fold_res f xs s = fold_res g ys t"
proof (induction ys arbitrary: xs s t)
  case Nil
  then show ?case by simp
next
  case (Cons y ys)
  then have "f y t = g y t" by simp
  moreover have "fold_res f ys s' = fold_res g ys s'" for s'
    using Cons.prems(3) by (intro Cons.IH) simp_all
  ultimately show ?case using Cons.prems(1,2) by (simp cong: bind_res_cong)
qed

lemma forEachM_mono [partial_function_mono]:
  assumes "\<And>x s. mono_option (\<lambda>f. body f x s)"
  shows "mono_option (\<lambda>f. forEachM (body f) xs s)"
proof (induction xs arbitrary: s)
  case Nil
  show ?case by (simp add: option.const_mono)
next
  case (Cons x xs)
  show ?case
    unfolding forEachM.simps
    by (rule bnd_mono) (rule assms, rule Cons.IH)
qed

lemma bnd_Some_Ok:
  "bnd m f = Some (Ok y) \<Longrightarrow> \<exists>x. m = Some (Ok x) \<and> f x = Some (Ok y)"
  by (auto simp: bnd_def split: option.splits res.splits)

lemma bnd_Some:
  "bnd m f = Some y \<Longrightarrow>
     m = Some Raise \<and> y = Raise \<or> m = Some Outside \<and> y = Outside
     \<or> (\<exists>x. m = Some (Ok x) \<and> f x = Some y)"
  by (auto simp: bnd_def split: option.splits res.splits)

lemma whileM_mono [partial_function_mono]:
  assumes b: "\<And>s. mono_option (\<lambda>f. body f s)"
  shows "mono_option (\<lambda>f. whileM c (body f) s)"
proof (rule monotoneI)
  fix f g :: "'b \<Rightarrow> 'c option"
  assume fg: "fun_ord option_ord f g"
  have step: "\<And>s. option_ord (body f s) (body g s)"
    using b fg unfolding monotone_def by blast
  have "\<forall>s r. whileM c (body f) s = Some r \<longrightarrow> whileM c (body g) s = Some r"
  proof (intro allI impI)
    fix s r
    assume run: "whileM c (body f) s = Some r"
    have "c = c \<longrightarrow> body f = body f \<longrightarrow> whileM c (body g) s = Some r"
    proof (rule whileM.raw_induct[where P = "\<lambda>c' b' s r. c' = c \<longrightarrow> b' = body f \<longrightarrow> whileM c (body g) s = Some r", OF _ run])
      fix w :: "('a \<Rightarrow> bool) \<Rightarrow> ('a \<Rightarrow> 'a res option) \<Rightarrow> 'a \<Rightarrow> 'a res option"
      fix c' b' s r
      assume IH: "\<And>c'' b'' s' y. w c'' b'' s' = Some y \<Longrightarrow>
                    c'' = c \<longrightarrow> b'' = body f \<longrightarrow> whileM c (body g) s' = Some y"
        and run': "(if c' s then bnd (b' s) (w c' b') else Some (Ok s)) = Some r"
      show "c' = c \<longrightarrow> b' = body f \<longrightarrow> whileM c (body g) s = Some r"
      proof (intro impI)
        assume eq: "c' = c" "b' = body f"
        show "whileM c (body g) s = Some r"
        proof (cases "c s")
          case False
          with run' eq show ?thesis by (subst whileM.simps) simp
        next
          case True
          with run' eq have "bnd (body f s) (w c (body f)) = Some r" by simp
          from bnd_Some[OF this] consider
            (e) "body f s = Some Raise" "r = Raise"
          | (o) "body f s = Some Outside" "r = Outside"
          | (k) x where "body f s = Some (Ok x)" "w c (body f) x = Some r" by blast
          then show ?thesis
          proof cases
            case e
            from e(1) step[of s] have "body g s = Some Raise" by (simp add: flat_ord_def)
            with True e(2) show ?thesis by (subst whileM.simps) simp
          next
            case o
            from o(1) step[of s] have "body g s = Some Outside" by (simp add: flat_ord_def)
            with True o(2) show ?thesis by (subst whileM.simps) simp
          next
            case k
            from k(1) step[of s] have gx: "body g s = Some (Ok x)" by (simp add: flat_ord_def)
            from IH[OF k(2)] have "whileM c (body g) x = Some r" by simp
            with True gx show ?thesis by (subst whileM.simps) simp
          qed
        qed
      qed
    qed
    then show "whileM c (body g) s = Some r" by simp
  qed
  then show "option_ord (whileM c (body f) s) (whileM c (body g) s)"
    by (cases "whileM c (body f) s") (auto simp: flat_ord_def)
qed

subsection \<open>Property names\<close>

definition is_digit :: "char \<Rightarrow> bool" where
  "is_digit c = (c \<in> set ''0123456789'')"

definition digit_val :: "char \<Rightarrow> int" where
  "digit_val c = of_char c - 48"

definition decimal_val :: "string \<Rightarrow> int" where
  "decimal_val s = foldl (\<lambda>a c. 10 * a + digit_val c) 0 s"

fun show_nat :: "nat \<Rightarrow> string" where
  "show_nat n = (if n < 10 then [''0123456789'' ! n]
                 else show_nat (n div 10) @ [''0123456789'' ! (n mod 10)])"

declare show_nat.simps [simp del]

text \<open>
  A string names an array index when it is the canonical decimal spelling of a number
  below \<open>2^32 - 1\<close>; so does a number below that bound.
\<close>

definition array_index :: "string \<Rightarrow> nat option" where
  "array_index s =
     (if s \<noteq> [] \<and> list_all is_digit s \<and> (s = ''0'' \<or> hd s \<noteq> CHR ''0'')
         \<and> decimal_val s < 4294967295
      then Some (nat (decimal_val s)) else None)"

fun key_string :: "pkey \<Rightarrow> string" where
  "key_string (PStr s) = s"
| "key_string (PNum n) = show_nat n"

fun to_index :: "pkey \<Rightarrow> nat option" where
  "to_index (PNum n) = (if int n < 4294967295 then Some n else None)"
| "to_index (PStr s) = array_index s"

text \<open>
  The integer that \<open>splice\<close> makes of its first argument. A number is itself; an optionally
  signed run of decimal digits is that number; a string without a digit and without the
  letter \<open>I\<close> is no number (or blank) and counts as 0. The other numeric spellings of the
  host (fractions, exponents, other radixes, surrounding blanks, \<open>Infinity\<close>) are not
  spelled out.
\<close>

fun signed_decimal :: "string \<Rightarrow> int option" where
  "signed_decimal [] = None"
| "signed_decimal (c # ds) =
     (if c = CHR ''-'' \<and> ds \<noteq> [] \<and> list_all is_digit ds then Some (- decimal_val ds)
      else if c = CHR ''+'' \<and> ds \<noteq> [] \<and> list_all is_digit ds then Some (decimal_val ds)
      else if list_all is_digit (c # ds) then Some (decimal_val (c # ds))
      else None)"

fun to_integer :: "pkey \<Rightarrow> int res" where
  "to_integer (PNum n) = Ok (int n)"
| "to_integer (PStr s) =
     (case signed_decimal s of
        Some n \<Rightarrow> Ok n
      | None \<Rightarrow> if list_ex (\<lambda>c. is_digit c \<or> c = CHR ''I'') s then Outside else Ok 0)"

subsection \<open>Inherited members\<close>

text \<open>
  The names of the members that a value inherits from the built-in prototypes
  (ECMAScript 2024 with its Annex B). A lookup that finds no own property under such a
  name finds the inherited member.
\<close>

definition object_members :: "string list" where
  "object_members =
     [''constructor'', ''__defineGetter__'', ''__defineSetter__'', ''hasOwnProperty'',
      ''__lookupGetter__'', ''__lookupSetter__'', ''isPrototypeOf'', ''propertyIsEnumerable'',
      ''toString'', ''valueOf'', ''__proto__'', ''toLocaleString'']"

definition array_members :: "string list" where
  "array_members =
     [''at'', ''concat'', ''copyWithin'', ''fill'', ''find'', ''findIndex'', ''findLast'',
      ''findLastIndex'', ''lastIndexOf'', ''pop'', ''push'', ''reverse'', ''shift'',
      ''unshift'', ''slice'', ''sort'', ''splice'', ''includes'', ''indexOf'', ''join'',
      ''keys'', ''entries'', ''values'', ''forEach'', ''filter'', ''flat'', ''flatMap'',
      ''map'', ''every'', ''some'', ''reduce'', ''reduceRight'', ''toReversed'',
      ''toSorted'', ''toSpliced'', ''with'']"

definition string_members :: "string list" where
  "string_members =
     [''anchor'', ''at'', ''big'', ''blink'', ''bold'', ''charAt'', ''charCodeAt'',
      ''codePointAt'', ''concat'', ''endsWith'', ''fontcolor'', ''fontsize'', ''fixed'',
      ''includes'', ''indexOf'', ''isWellFormed'', ''italics'', ''lastIndexOf'', ''link'',
      ''localeCompare'', ''match'', ''matchAll'', ''normalize'', ''padEnd'', ''padStart'',
      ''repeat'', ''replace'', ''replaceAll'', ''search'', ''slice'', ''small'', ''split'',
      ''strike'', ''sub'', ''substr'', ''substring'', ''startsWith'', ''toLowerCase'',
      ''toUpperCase'', ''toLocaleLowerCase'', ''toLocaleUpperCase'', ''toWellFormed'',
      ''trim'', ''trimStart'', ''trimEnd'', ''trimLeft'', ''trimRight'']"

definition number_members :: "string list" where
  "number_members = [''toExponential'', ''toFixed'', ''toPrecision'']"

definition members_of :: "string \<Rightarrow> string list" where
  "members_of ty =
     (if ty = ''object'' \<or> ty = ''boolean'' then object_members
      else if ty = ''array'' then array_members @ object_members
      else if ty = ''string'' then string_members @ object_members
      else if ty = ''number'' then number_members @ object_members
      else [])"

definition inherited :: "string \<Rightarrow> string \<Rightarrow> bool" where
  "inherited ty k = (k \<in> set (members_of ty))"

subsection \<open>Arrays and objects as the host has them\<close>

text \<open>
  These are written once for any type of element, since the store of the later sections
  holds the same arrays and objects with addresses in them.
\<close>

definition array_slot :: "'v option list \<Rightarrow> (string \<times> 'v) list \<Rightarrow> pkey \<Rightarrow> 'v slot" where
  "array_slot xs ps p =
     (case to_index p of
        Some i \<Rightarrow>
          (if i < length xs then (case xs ! i of Some v \<Rightarrow> Stored v | None \<Rightarrow> Absent)
           else Absent)
      | None \<Rightarrow>
          (case map_of ps (key_string p) of
             Some v \<Rightarrow> Stored v
           | None \<Rightarrow> if inherited ''array'' (key_string p) then Member else Absent))"

definition object_slot :: "(string \<times> 'v) list \<Rightarrow> pkey \<Rightarrow> 'v slot" where
  "object_slot kvs p =
     (case map_of kvs (key_string p) of
        Some v \<Rightarrow> Stored v
      | None \<Rightarrow> if inherited ''object'' (key_string p) then Member else Absent)"

text \<open>
  A new key goes where the host enumerates it: an array index before every larger index
  and every other key, any other key last.
\<close>

definition put_entry :: "string \<Rightarrow> 'v \<Rightarrow> (string \<times> 'v) list \<Rightarrow> (string \<times> 'v) list" where
  "put_entry k v kvs =
     (if map_of kvs k \<noteq> None then AList.update k v kvs
      else
        (case array_index k of
           None \<Rightarrow> kvs @ [(k, v)]
         | Some i \<Rightarrow>
             (let before = (\<lambda>(k', w). case array_index k' of Some j \<Rightarrow> j < i | None \<Rightarrow> False)
              in takeWhile before kvs @ (k, v) # dropWhile before kvs)))"

text \<open>
  \<open>obj[prop] = v\<close> on a plain object. Every name takes a value as an own property, except
  \<open>__proto__\<close> where the object has no own property of that name: the inherited setter
  stores nothing, and changes the prototype when \<open>v\<close> is an object or \<open>null\<close>.
\<close>

definition object_put ::
    "('v \<Rightarrow> bool) \<Rightarrow> (string \<times> 'v) list \<Rightarrow> pkey \<Rightarrow> 'v \<Rightarrow> (string \<times> 'v) list res" where
  "object_put objlike kvs p v =
     (if key_string p = ''__proto__'' \<and> map_of kvs ''__proto__'' = None
      then (if objlike v then Outside else Ok kvs)
      else Ok (put_entry (key_string p) v kvs))"

text \<open>
  \<open>arr[prop] = v\<close> on an array. An index past the end leaves empty slots behind; \<open>length\<close>
  takes a number in range and resizes (RangeError out of range; another value would be
  converted first); any other name is a named property.
\<close>

definition array_put ::
    "('v \<Rightarrow> int option) \<Rightarrow> ('v \<Rightarrow> bool) \<Rightarrow> 'v option list \<Rightarrow> (string \<times> 'v) list \<Rightarrow> pkey \<Rightarrow> 'v
       \<Rightarrow> ('v option list \<times> (string \<times> 'v) list) res" where
  "array_put number_of objlike xs ps p v =
     (case to_index p of
        Some i \<Rightarrow>
          Ok (if i < length xs then xs[i := Some v]
              else xs @ replicate (i - length xs) None @ [Some v], ps)
      | None \<Rightarrow>
          if key_string p = ''length'' then
            (case number_of v of
               Some n \<Rightarrow>
                 if 0 \<le> n \<and> n < 4294967296
                 then Ok (take (nat n) xs @ replicate (nat n - length xs) None, ps)
                 else Raise
             | None \<Rightarrow> Outside)
          else if key_string p = ''__proto__'' \<and> map_of ps ''__proto__'' = None
          then (if objlike v then Outside else Ok (xs, ps))
          else Ok (xs, put_entry (key_string p) v ps))"

text \<open>\<open>xs.splice(start, 1)\<close>: a negative start counts from the end.\<close>

definition splice1 :: "'a list \<Rightarrow> int \<Rightarrow> 'a list" where
  "splice1 xs start =
     (let len = int (length xs);
          actual = nat (if start < 0 then max (len + start) 0 else min start len)
      in take actual xs @ drop (actual + 1) xs)"

text \<open>The slots as \<open>[...xs]\<close> and \<open>Object.keys\<close> see them.\<close>

definition dense :: "'v \<Rightarrow> 'v option list \<Rightarrow> 'v option list" where
  "dense undef xs = map (\<lambda>x. Some (case x of Some v \<Rightarrow> v | None \<Rightarrow> undef)) xs"

definition present :: "'v option list \<Rightarrow> nat list" where
  "present xs = filter (\<lambda>i. xs ! i \<noteq> None) [0..<length xs]"

subsection \<open>Reading and writing a property of a value\<close>

fun from_slot :: "val slot \<Rightarrow> val res" where
  "from_slot (Stored v) = Ok v"
| "from_slot Absent = Ok Undefined"
| "from_slot Member = Outside"

text \<open>\<open>obj[prop]\<close>: TypeError on \<open>undefined\<close> and \<open>null\<close>, \<open>undefined\<close> where nothing is found.\<close>

fun prop_read :: "val \<Rightarrow> pkey \<Rightarrow> val res" where
  "prop_read Undefined p = Raise"
| "prop_read Null p = Raise"
| "prop_read (Bool b) p = (if inherited ''boolean'' (key_string p) then Outside else Ok Undefined)"
| "prop_read (Num n) p = (if inherited ''number'' (key_string p) then Outside else Ok Undefined)"
| "prop_read (Str s) p =
     (case to_index p of
        Some i \<Rightarrow> Ok (if i < length s then Str [s ! i] else Undefined)
      | None \<Rightarrow>
          if key_string p = ''length'' then Ok (Num (int (length s)))
          else if inherited ''string'' (key_string p) then Outside
          else Ok Undefined)"
| "prop_read (Arr xs ps) p =
     (if to_index p = None \<and> key_string p = ''length'' then Ok (Num (int (length xs)))
      else from_slot (array_slot xs ps p))"
| "prop_read (Obj kvs) p = from_slot (object_slot kvs p)"

fun objlike :: "val \<Rightarrow> bool" where
  "objlike Null = True"
| "objlike (Arr xs ps) = True"
| "objlike (Obj kvs) = True"
| "objlike v = False"

fun number_of :: "val \<Rightarrow> int option" where
  "number_of (Num n) = Some n"
| "number_of v = None"

text \<open>
  \<open>obj[prop] = v\<close>. On a primitive the assignment raises TypeError in strict mode, unless
  the name is \<open>__proto__\<close>, whose inherited setter does nothing there.
\<close>

fun prop_write :: "val \<Rightarrow> pkey \<Rightarrow> val \<Rightarrow> val res" where
  "prop_write (Obj kvs) p v = bind_res (object_put objlike kvs p v) (\<lambda>kvs. Ok (Obj kvs))"
| "prop_write (Arr xs ps) p v =
     bind_res (array_put number_of objlike xs ps p v) (\<lambda>(xs, ps). Ok (Arr xs ps))"
| "prop_write Undefined p v = Raise"
| "prop_write Null p v = Raise"
| "prop_write obj p v = (if key_string p = ''__proto__'' then Ok obj else Raise)"

fun arr_elems :: "val \<Rightarrow> val option list" where
  "arr_elems (Arr xs ps) = xs"
| "arr_elems v = []"

fun arr_props :: "val \<Rightarrow> (string \<times> val) list" where
  "arr_props (Arr xs ps) = ps"
| "arr_props v = []"

fun object_entries :: "val \<Rightarrow> (string \<times> val) list" where
  "object_entries (Obj kvs) = kvs"
| "object_entries v = []"

text \<open>\<open>result.splice(prop, 1)\<close> and \<open>delete result[prop]\<close>.\<close>

definition splice :: "val \<Rightarrow> pkey \<Rightarrow> val res" where
  "splice result p =
     bind_res (to_integer p) (\<lambda>start. Ok (Arr (splice1 (arr_elems result) start) (arr_props result)))"

definition delete_prop :: "val \<Rightarrow> pkey \<Rightarrow> val" where
  "delete_prop result p = Obj (AList.delete (key_string p) (object_entries result))"

text \<open>Whether \<open>forEach\<close> visits an index: it is below the length and the slot is not empty.\<close>

definition has_index :: "val \<Rightarrow> nat \<Rightarrow> bool" where
  "has_index result i = (i < length (arr_elems result) \<and> arr_elems result ! i \<noteq> None)"

text \<open>\<open>Object.keys\<close> and \<open>Object.values\<close> of a plain object.\<close>

definition object_keys :: "val \<Rightarrow> string list" where
  "object_keys obj = map fst (object_entries obj)"

definition object_values :: "val \<Rightarrow> val list" where
  "object_values obj = map snd (object_entries obj)"

text \<open>
  The spread copies \<open>[...obj]\<close> and \<open>{...obj}\<close>. The copy of an array has its elements, with
  \<open>undefined\<close> for an empty slot, and none of its named properties; the copy of an object
  has its entries.
\<close>

fun copyOf :: "val \<Rightarrow> val" where
  "copyOf (Arr xs ps) = Arr (dense Undefined xs) []"
| "copyOf (Obj kvs) = Obj kvs"
| "copyOf v = v"

section \<open>findDirectPropInObject\<close>

text \<open>
  One segment on one container (source lines 22 to 131). The recursive calls are the
  source's: with \<open>copyByRef = true\<close> the callee works on the very container it is given and
  returns it, so the value it returns is the container after the in-place update.
  \<open>forEach\<close> fixes the number of rounds at entry and skips an index that is not there when
  its round comes.
\<close>

partial_function (option)
  findDirectPropInObject :: "val \<Rightarrow> pkey \<Rightarrow> bool \<Rightarrow> repl option \<Rightarrow> val res option" where
  "findDirectPropInObject obj prop copyByRef args =
    (let ty = getObjectType obj; shouldReplace = (\<not> Option.is_none args) in
     if ty \<noteq> ''array'' \<and> ty \<noteq> ''object'' then Some (Ok obj)
     else
       let result = (if \<not> copyByRef then copyOf obj else obj) in
       if prop = PStr '''' then
         (if shouldReplace then Some (Ok result) else Some (Ok Undefined))
       else if prop = PStr ''*'' then
         (case args of
            Some value \<Rightarrow>
              if ty = ''array'' then
                (if is_undefined value then
                   whileM (\<lambda>result. length (arr_elems result) \<noteq> 0)
                     (\<lambda>result. findDirectPropInObject result (PNum 0) True (Some value))
                     result
                 else
                   let len = length (arr_elems result) in
                   forEachM (\<lambda>index result.
                       if has_index result index then
                         (let itemIndex = len - 1 - index in
                          bnd (case value of
                                 Trans f \<Rightarrow>
                                   bnd (Some (prop_read result (PNum itemIndex)))
                                     (\<lambda>item. Some (Ok (f item)))
                               | Lit v \<Rightarrow> Some (Ok v))
                            (\<lambda>itemValue.
                               if itemValue = Undefined then
                                 findDirectPropInObject result (PNum itemIndex) True
                                   (Some (Lit Undefined))
                               else
                                 bnd (findDirectPropInObject result (PNum itemIndex) copyByRef
                                        (Some (Lit itemValue)))
                                   (\<lambda>newResult.
                                      bnd (Some (prop_read newResult (PNum itemIndex)))
                                        (\<lambda>v. Some (prop_write
                                                 (if copyByRef then newResult else result)
                                                 (PNum itemIndex) v)))))
                       else Some (Ok result))
                     [0..<len] result)
              else
                forEachM (\<lambda>key result. findDirectPropInObject result (PStr key) True (Some value))
                  (object_keys result) result
          | None \<Rightarrow>
              if ty = ''array'' then Some (Ok result)
              else Some (Ok (Arr (map Some (object_values result)) [])))
       else
         (case args of
            Some value \<Rightarrow>
              bnd (case value of
                     Trans f \<Rightarrow> bnd (Some (prop_read result prop)) (\<lambda>cur. Some (Ok (f cur)))
                   | Lit v \<Rightarrow> Some (Ok v))
                (\<lambda>replaceWith.
                   if replaceWith = Undefined \<and> ty = ''array'' then Some (splice result prop)
                   else if replaceWith = Undefined \<and> ty = ''object''
                   then Some (Ok (delete_prop result prop))
                   else Some (prop_write result prop replaceWith))
          | None \<Rightarrow> Some (prop_read result prop)))"

declare findDirectPropInObject.simps [code]

section \<open>findPropInObject\<close>

subsection \<open>The path string\<close>

text \<open>
  Source lines 150 to 153: drop one opening bracket at the start and one closing bracket
  at the end, turn every other bracket into a dot, collapse runs of dots, split at the
  dots.
\<close>

definition strip_brackets :: "string \<Rightarrow> string" where
  "strip_brackets s =
     (let s1 = (case s of c # cs \<Rightarrow> if c = CHR ''['' then cs else s | [] \<Rightarrow> [])
      in if s1 \<noteq> [] \<and> last s1 = CHR '']'' then butlast s1 else s1)"

definition brackets_to_dots :: "string \<Rightarrow> string" where
  "brackets_to_dots s = map (\<lambda>c. if c = CHR ''['' \<or> c = CHR '']'' then CHR ''.'' else c) s"

fun collapse_dots :: "string \<Rightarrow> string" where
  "collapse_dots (a # b # cs) =
     (if a = CHR ''.'' \<and> b = CHR ''.'' then collapse_dots (b # cs)
      else a # collapse_dots (b # cs))"
| "collapse_dots cs = cs"

fun split_dots :: "string \<Rightarrow> string list" where
  "split_dots [] = [[]]"
| "split_dots (c # cs) =
     (if c = CHR ''.'' then [] # split_dots cs
      else (case split_dots cs of seg # segs \<Rightarrow> (c # seg) # segs | [] \<Rightarrow> [[c]]))"

fun join_dots :: "string list \<Rightarrow> string" where
  "join_dots [] = []"
| "join_dots [s] = s"
| "join_dots (s # t # ts) = s @ CHR ''.'' # join_dots (t # ts)"

definition parsePath :: "string \<Rightarrow> string list" where
  "parsePath pathStr = split_dots (collapse_dots (brackets_to_dots (strip_brackets pathStr)))"

text \<open>A character that the path syntax does not use.\<close>

definition plain_char :: "char \<Rightarrow> bool" where
  "plain_char c = (c \<noteq> CHR ''.'' \<and> c \<noteq> CHR ''['' \<and> c \<noteq> CHR '']'')"

lemma split_dots_ne [simp]: "split_dots t \<noteq> []"
  by (induction t) (auto split: list.splits)

lemma join_split [simp]: "join_dots (split_dots t) = t"
proof (induction t)
  case Nil
  show ?case by simp
next
  case (Cons c cs)
  then show ?case
    by (cases "split_dots cs"; cases "tl (split_dots cs)") (auto split: list.splits)
qed

lemma length_collapse: "length (collapse_dots s) \<le> length s"
  by (induction s rule: collapse_dots.induct) auto

lemma length_strip: "length (strip_brackets s) \<le> length s"
  by (auto simp: strip_brackets_def Let_def split: list.splits)

lemma join_tl_shorter:
  "length segs \<noteq> 1 \<Longrightarrow> segs \<noteq> [] \<Longrightarrow> length (join_dots (tl segs)) < length (join_dots segs)"
  by (cases segs rule: join_dots.cases) auto

lemma remaining_shorter:
  "length (parsePath s) \<noteq> 1 \<Longrightarrow> length (join_dots (tl (parsePath s))) < length s"
proof -
  assume a: "length (parsePath s) \<noteq> 1"
  let ?t = "collapse_dots (brackets_to_dots (strip_brackets s))"
  have "length (join_dots (tl (split_dots ?t))) < length (join_dots (split_dots ?t))"
    using a by (intro join_tl_shorter) (simp_all add: parsePath_def)
  also have "\<dots> = length ?t" by simp
  also have "\<dots> \<le> length s"
    using length_collapse[of "brackets_to_dots (strip_brackets s)"] length_strip[of s]
    by (simp add: brackets_to_dots_def)
  finally show ?thesis by (simp add: parsePath_def)
qed

subsection \<open>The resolver\<close>

text \<open>The values that \<open>result[prop] || {}\<close> replaces by the empty object.\<close>

fun falsy :: "val \<Rightarrow> bool" where
  "falsy Undefined = True"
| "falsy Null = True"
| "falsy (Bool b) = (\<not> b)"
| "falsy (Num n) = (n = 0)"
| "falsy (Str s) = (s = [])"
| "falsy v = False"

text \<open>
  Source lines 144 to 223. The recursion is on the path string, which gets shorter.
  \<open>forEach\<close> and \<open>map\<close> pass over an empty slot; \<open>map\<close> leaves it empty in the array it
  returns.
\<close>

function findPropInObject :: "val \<Rightarrow> string \<Rightarrow> bool \<Rightarrow> repl option \<Rightarrow> val res option" where
  "findPropInObject obj pathStr copyByRef args =
    (let ty = getObjectType obj; path = parsePath pathStr in
     if length path = 1 then findDirectPropInObject obj (PStr (hd path)) copyByRef args
     else
       let result = (if \<not> copyByRef then copyOf obj else obj);
           prop = hd path;
           remainingPath = join_dots (tl path)
       in
       case args of
         Some value \<Rightarrow>
           if prop = ''*'' then
             (if ty = ''array'' then
                forEachM (\<lambda>index result.
                    case (if index < length (arr_elems result) then arr_elems result ! index
                          else None) of
                      Some item \<Rightarrow>
                        bnd (findPropInObject item remainingPath copyByRef args)
                          (\<lambda>r. Some (prop_write result (PNum index) r))
                    | None \<Rightarrow> Some (Ok result))
                  [0..<length (arr_elems result)] result
              else if ty = ''object'' then
                forEachM (\<lambda>key result.
                    bnd (Some (prop_read result (PStr key)))
                      (\<lambda>item. bnd (findPropInObject item remainingPath copyByRef args)
                         (\<lambda>r. Some (prop_write result (PStr key) r))))
                  (object_keys result) result
              else Some (Ok result))
           else
             bnd (Some (prop_read result (PStr prop)))
               (\<lambda>cur. bnd (if cur = Undefined then Some (prop_write result (PStr prop) (Obj []))
                           else Some (Ok result))
                  (\<lambda>result. bnd (Some (prop_read result (PStr prop)))
                     (\<lambda>cur. bnd (findPropInObject cur remainingPath copyByRef args)
                        (\<lambda>r. Some (prop_write result (PStr prop) r)))))
       | None \<Rightarrow>
           if prop = ''*'' \<and> ty = ''array'' then
             bnd (mapM (\<lambda>slot. case slot of
                                 Some item \<Rightarrow>
                                   bnd (findPropInObject item remainingPath copyByRef None)
                                     (\<lambda>r. Some (Ok (Some r)))
                               | None \<Rightarrow> Some (Ok None))
                    (arr_elems result))
               (\<lambda>rs. Some (Ok (Arr rs [])))
           else if prop = ''*'' \<and> ty = ''object'' then
             bnd (mapM (\<lambda>item. findPropInObject item remainingPath copyByRef None)
                    (object_values result))
               (\<lambda>rs. Some (Ok (Arr (map Some rs) [])))
           else
             bnd (Some (prop_read result (PStr prop)))
               (\<lambda>cur. findPropInObject (if falsy cur then Obj [] else cur) remainingPath
                          copyByRef None))"
  by pat_completeness auto
termination
  by (relation "measure (\<lambda>(obj, pathStr, copyByRef, args). length pathStr)")
     (auto simp: remaining_shorter)

declare findPropInObject.simps [simp del]

section \<open>deepCopy and deepCompare\<close>

text \<open>
  \<open>Object.keys\<close> of an array or a plain object: the indices of the slots that are not
  empty, then the names of the named properties; the keys of the entries. An index key is
  written as the number.
\<close>

fun own_keys :: "val \<Rightarrow> pkey list" where
  "own_keys (Arr xs ps) = map PNum (present xs) @ map (PStr \<circ> fst) ps"
| "own_keys (Obj kvs) = map (PStr \<circ> fst) kvs"
| "own_keys v = []"

lemma size_slot:
  assumes "Some v \<in> set xs"
  shows "size v < Suc (size_list (size_option size) xs)"
proof -
  have "size_option size (Some v) \<le> size_list (size_option size) xs"
    using assms by (rule size_list_estimation') simp
  then show ?thesis by simp
qed

lemma size_entry:
  assumes "map_of kvs k = Some v"
  shows "size v < Suc (size_list (size_prod (\<lambda>x. 0) size) kvs)"
proof -
  from assms have "(k, v) \<in> set kvs" by (rule map_of_SomeD)
  then have "size_prod (\<lambda>x. 0) size (k, v) \<le> size_list (size_prod (\<lambda>x. 0) size) kvs"
    by (rule size_list_estimation') simp
  then show ?thesis by simp
qed

lemma size_prop_read:
  assumes "prop_read obj key = Ok item"
    and "getObjectType obj = ''object'' \<or> getObjectType obj = ''array''"
  shows "size item < size obj"
proof (cases obj)
  case (Obj kvs)
  with assms(1) show ?thesis
    by (auto simp: object_slot_def split: option.splits if_splits dest: size_entry)
next
  case (Arr xs ps)
  show ?thesis
  proof (cases "to_index key = None \<and> key_string key = ''length''")
    case True
    with assms(1) Arr show ?thesis by auto
  next
    case False
    with assms(1) Arr have s: "from_slot (array_slot xs ps key) = Ok item" by auto
    show ?thesis
    proof (cases "array_slot xs ps key")
      case (Stored v)
      with s have v: "v = item" by simp
      from Stored consider i where "i < length xs" "xs ! i = Some v"
        | "map_of ps (key_string key) = Some v"
        by (auto simp: array_slot_def split: option.splits if_splits)
      then show ?thesis
      proof cases
        case 1
        then have "Some v \<in> set xs" by (metis nth_mem)
        from size_slot[OF this] v Arr show ?thesis by simp
      next
        case 2
        from size_entry[OF this] v Arr show ?thesis by simp
      qed
    next
      case Absent
      with s Arr show ?thesis by auto
    next
      case Member
      with s show ?thesis by simp
    qed
  qed
qed (use assms(2) in auto)

text \<open>
  Source lines 264 to 282: a new container of the same kind receives, key by key, the
  copy of each composite entry and every other entry as it is.
\<close>

function deepCopy :: "val \<Rightarrow> val res" where
  "deepCopy obj =
     (let ty = getObjectType obj in
      if ty = ''object'' \<or> ty = ''array'' then
        fold_res (\<lambda>key newObj.
            bind_res (prop_read obj key)
              (\<lambda>item. bind_res (if getObjectType item = ''object'' \<or> getObjectType item = ''array''
                                 then deepCopy item else Ok item)
                 (\<lambda>copy. prop_write newObj key copy)))
          (own_keys obj) (if ty = ''array'' then Arr [] [] else Obj [])
      else Ok obj)"
  by pat_completeness auto
termination
  by (relation "measure size") (auto dest: size_prop_read)

declare deepCopy.simps [simp del]

text \<open>
  \<open>toString\<close>. A number below \<open>10^21\<close> in magnitude is its decimal digits (the host writes
  a larger one with an exponent, which is not spelled out). An array joins the strings of its elements with commas, an empty slot,
  \<open>undefined\<close> and \<open>null\<close> giving the empty string; a plain object is \<open>[object Object]\<close>. An
  own property \<open>toString\<close> holds a value that is no function, so calling it raises TypeError;
  an array with an own property \<open>join\<close> is \<open>[object Array]\<close>. \<open>objA?.toString()\<close> is
  \<open>undefined\<close> on \<open>undefined\<close> and \<open>null\<close>.
\<close>

fun join_commas :: "string list \<Rightarrow> string" where
  "join_commas [] = []"
| "join_commas [s] = s"
| "join_commas (s # t # ts) = s @ CHR '','' # join_commas (t # ts)"

definition show_int :: "int \<Rightarrow> string" where
  "show_int n = (if n < 0 then CHR ''-'' # show_nat (nat (- n)) else show_nat (nat n))"

primrec map_res :: "('a \<Rightarrow> 'b res) \<Rightarrow> 'a list \<Rightarrow> 'b list res" where
  "map_res f [] = Ok []"
| "map_res f (x # xs) = bind_res (f x) (\<lambda>y. bind_res (map_res f xs) (\<lambda>ys. Ok (y # ys)))"

lemma map_res_cong [fundef_cong]:
  "xs = ys \<Longrightarrow> (\<And>x. x \<in> set ys \<Longrightarrow> f x = g x) \<Longrightarrow> map_res f xs = map_res g ys"
  by (induction ys arbitrary: xs) (auto cong: bind_res_cong)

function toString :: "val \<Rightarrow> string res" where
  "toString (Bool b) = Ok (if b then ''true'' else ''false'')"
| "toString (Num n) =
     (if - 1000000000000000000000 < n \<and> n < 1000000000000000000000 then Ok (show_int n)
      else Outside)"
| "toString (Str s) = Ok s"
| "toString (Arr xs ps) =
     (if map_of ps ''toString'' \<noteq> None then Raise
      else if map_of ps ''join'' \<noteq> None then Ok ''[object Array]''
      else bind_res (map_res (\<lambda>x. case x of
                                    None \<Rightarrow> Ok []
                                  | Some v \<Rightarrow> if v = Undefined \<or> v = Null then Ok [] else toString v)
                       xs)
             (\<lambda>strs. Ok (join_commas strs)))"
| "toString (Obj kvs) = (if map_of kvs ''toString'' \<noteq> None then Raise else Ok ''[object Object]'')"
| "toString Undefined = Ok ''undefined''"
| "toString Null = Ok ''null''"
  by pat_completeness auto
termination
  by (relation "measure size") (auto dest: size_slot)

definition toString_opt :: "val \<Rightarrow> string option res" where
  "toString_opt v =
     (if v = Undefined \<or> v = Null then Ok None else bind_res (toString v) (\<lambda>s. Ok (Some s)))"

text \<open>
  Source lines 291 to 311: the kinds must agree, every key of the first argument must
  compare equal in the second, and the two string forms must agree.
\<close>

function deepCompare :: "val \<Rightarrow> val \<Rightarrow> bool res" where
  "deepCompare objA objB =
     (let typeA = getObjectType objA; typeB = getObjectType objB in
      if typeA \<noteq> typeB then Ok False
      else
        bind_res (if typeA = ''object'' \<or> typeA = ''array'' then
                    all_res (\<lambda>key.
                        bind_res (prop_read objA key)
                          (\<lambda>valueA. bind_res (prop_read objB key)
                             (\<lambda>valueB. deepCompare valueA valueB)))
                      (own_keys objA)
                  else Ok True)
          (\<lambda>same. if \<not> same then Ok False
                   else bind_res (toString_opt objA)
                          (\<lambda>a. bind_res (toString_opt objB) (\<lambda>b. Ok (a = b)))))"
  by pat_completeness auto
termination
  by (relation "measure (\<lambda>(objA, objB). size objA)") (auto dest: size_prop_read)

declare deepCompare.simps [simp del]

section \<open>mergeObjects\<close>

text \<open>
  Source lines 254 to 257: every key of the fragment is used as a path for a write of the
  fragment's value into a copy of the base. \<open>Object.keys\<close> raises on \<open>undefined\<close> and
  \<open>null\<close>; the object spread of a value that is no container has no entries.
\<close>

fun object_spread :: "val \<Rightarrow> val" where
  "object_spread (Obj kvs) = Obj kvs"
| "object_spread (Arr xs ps) = Obj (map (\<lambda>i. (show_nat i, the (xs ! i))) (present xs) @ ps)"
| "object_spread (Str s) = Obj (map (\<lambda>i. (show_nat i, Str [s ! i])) [0..<length s])"
| "object_spread v = Obj []"

fun keys_of :: "val \<Rightarrow> string list res" where
  "keys_of Undefined = Raise"
| "keys_of Null = Raise"
| "keys_of (Obj kvs) = Ok (map fst kvs)"
| "keys_of (Arr xs ps) = Ok (map show_nat (present xs) @ map fst ps)"
| "keys_of (Str s) = Ok (map show_nat [0..<length s])"
| "keys_of v = Ok []"

definition mergeObjects :: "val \<Rightarrow> val \<Rightarrow> val res option" where
  "mergeObjects objA objB =
     bnd (Some (keys_of objB))
       (\<lambda>keys. forEachM (\<lambda>next prev.
                   bnd (Some (prop_read objB (PStr next)))
                     (\<lambda>v. findPropInObject prev next False (Some (Lit v))))
                 keys (object_spread objA))"

section \<open>Paths through arrays and plain objects\<close>

text \<open>
  The value found under a key, \<open>undefined\<close> if there is none.
\<close>

definition lookup :: "val \<Rightarrow> pkey \<Rightarrow> val" where
  "lookup obj key = (case prop_read obj key of Ok v \<Rightarrow> v | Raise \<Rightarrow> Undefined | Outside \<Rightarrow> Undefined)"

text \<open>
  A container takes a segment that leads further when it is a plain object and the segment
  does not find an inherited member there, or an array and the segment is an array index.
  It takes a last segment for the write of \<open>x\<close> when it is a plain object and the segment is
  no inherited name (if \<open>x\<close> is \<open>undefined\<close>) or is not \<open>__proto__\<close> unless the object has that
  key (otherwise), or when it is an array, the segment is an array index and \<open>x\<close> is not
  \<open>undefined\<close>. A path is in order for the write of \<open>x\<close> into \<open>c\<close> when no segment is the
  wildcard, the last segment is not empty, and every container on the way takes its
  segment, a missing entry standing for the empty object that the write creates there.
\<close>

fun container_ok :: "val \<Rightarrow> string \<Rightarrow> bool" where
  "container_ok (Obj kvs) s = (map_of kvs s \<noteq> None \<or> \<not> inherited ''object'' s)"
| "container_ok (Arr xs ps) s = (array_index s \<noteq> None)"
| "container_ok v s = False"

fun last_ok :: "val \<Rightarrow> val \<Rightarrow> string \<Rightarrow> bool" where
  "last_ok x (Obj kvs) s =
     (if x = Undefined then \<not> inherited ''object'' s
      else s \<noteq> ''__proto__'' \<or> map_of kvs s \<noteq> None)"
| "last_ok x (Arr xs ps) s = (array_index s \<noteq> None \<and> x \<noteq> Undefined)"
| "last_ok x v s = False"

fun path_ok :: "val \<Rightarrow> val \<Rightarrow> string list \<Rightarrow> bool" where
  "path_ok x c [] = False"
| "path_ok x c [s] = (s \<noteq> '''' \<and> s \<noteq> ''*'' \<and> last_ok x c s)"
| "path_ok x c (s # t # rest) =
     (s \<noteq> ''*'' \<and> container_ok c s \<and>
      path_ok x (if lookup c (PStr s) = Undefined then Obj [] else lookup c (PStr s)) (t # rest))"

text \<open>A fragment key that is one literal segment when read as a path.\<close>

definition key_ok :: "string \<Rightarrow> bool" where
  "key_ok k = (k \<noteq> '''' \<and> k \<noteq> ''*'' \<and> list_all plain_char k)"

section \<open>The same code over a store\<close>

text \<open>
  Whether a call changes the containers it is given cannot be said of a tree of values.
  Here an object is a cell of a store, a value holds a primitive or the address of a
  cell, the spread copy allocates a new cell, and an assignment updates the cell in place.
  A cell is an array, a plain object, or an object of another kind (a \<open>Date\<close>, a function,
  a \<open>Map\<close>, ...), which \<open>getObjectType\<close> gives a tag that is neither \<open>array\<close> nor \<open>object\<close>.
  Of an object of another kind the store holds the own properties that can be read and
  assigned, and the names that are reserved: those of the members it inherits and of own
  properties that are read-only or go through an accessor; a lookup or an assignment under
  a reserved name is \<open>Outside\<close>. The two finders are transcribed again, line by line, over
  this store; they return the value and the store that the call leaves behind. A value
  transformer is a function on values.
\<close>

type_synonym addr = nat

datatype ref = RUndefined | RNull | RBool bool | RNum int | RStr string | Ref addr

datatype cell = CArr "ref option list" "(string \<times> ref) list" | CObj "(string \<times> ref) list"
  | COther "string list" "(string \<times> ref) list"

type_synonym store = "cell list"

datatype rrepl = RLit ref | RTrans "ref \<Rightarrow> ref"

definition cell_at :: "store \<Rightarrow> addr \<Rightarrow> cell option" where
  "cell_at st a = (if a < length st then Some (st ! a) else None)"

definition alloc :: "store \<Rightarrow> cell \<Rightarrow> ref \<times> store" where
  "alloc st c = (Ref (length st), st @ [c])"

text \<open>
  An address outside the store does not occur in a state the program can reach; it gets a
  tag of its own, so that it counts as no container.
\<close>

fun getObjectType_st :: "store \<Rightarrow> ref \<Rightarrow> string" where
  "getObjectType_st st RUndefined = ''undefined''"
| "getObjectType_st st RNull = ''null''"
| "getObjectType_st st (RBool b) = ''boolean''"
| "getObjectType_st st (RNum n) = ''number''"
| "getObjectType_st st (RStr s) = ''string''"
| "getObjectType_st st (Ref a) =
     (case cell_at st a of
        Some (CArr xs ps) \<Rightarrow> ''array''
      | Some (CObj kvs) \<Rightarrow> ''object''
      | Some (COther ms ps) \<Rightarrow> ''other''
      | None \<Rightarrow> ''dangling'')"

fun is_undefined_st :: "rrepl \<Rightarrow> bool" where
  "is_undefined_st (RLit RUndefined) = True"
| "is_undefined_st r = False"

fun from_slot_st :: "ref slot \<Rightarrow> ref res" where
  "from_slot_st (Stored v) = Ok v"
| "from_slot_st Absent = Ok RUndefined"
| "from_slot_st Member = Outside"

fun objlike_st :: "ref \<Rightarrow> bool" where
  "objlike_st RNull = True"
| "objlike_st (Ref a) = True"
| "objlike_st v = False"

fun number_of_st :: "ref \<Rightarrow> int option" where
  "number_of_st (RNum n) = Some n"
| "number_of_st v = None"

fun read_cell :: "cell \<Rightarrow> pkey \<Rightarrow> ref res" where
  "read_cell (CArr xs ps) p =
     (if to_index p = None \<and> key_string p = ''length'' then Ok (RNum (int (length xs)))
      else from_slot_st (array_slot xs ps p))"
| "read_cell (CObj kvs) p = from_slot_st (object_slot kvs p)"
| "read_cell (COther ms ps) p =
     (case map_of ps (key_string p) of
        Some v \<Rightarrow> Ok v
      | None \<Rightarrow> if key_string p \<in> set ms then Outside else Ok RUndefined)"

fun write_cell :: "cell \<Rightarrow> pkey \<Rightarrow> ref \<Rightarrow> cell res" where
  "write_cell (CObj kvs) p v = bind_res (object_put objlike_st kvs p v) (\<lambda>kvs. Ok (CObj kvs))"
| "write_cell (CArr xs ps) p v =
     bind_res (array_put number_of_st objlike_st xs ps p v) (\<lambda>(xs, ps). Ok (CArr xs ps))"
| "write_cell (COther ms ps) p v =
     (if key_string p \<in> set ms then Outside else Ok (COther ms (put_entry (key_string p) v ps)))"

fun prop_read_st :: "store \<Rightarrow> ref \<Rightarrow> pkey \<Rightarrow> ref res" where
  "prop_read_st st RUndefined p = Raise"
| "prop_read_st st RNull p = Raise"
| "prop_read_st st (RBool b) p =
     (if inherited ''boolean'' (key_string p) then Outside else Ok RUndefined)"
| "prop_read_st st (RNum n) p =
     (if inherited ''number'' (key_string p) then Outside else Ok RUndefined)"
| "prop_read_st st (RStr s) p =
     (case to_index p of
        Some i \<Rightarrow> Ok (if i < length s then RStr [s ! i] else RUndefined)
      | None \<Rightarrow>
          if key_string p = ''length'' then Ok (RNum (int (length s)))
          else if inherited ''string'' (key_string p) then Outside
          else Ok RUndefined)"
| "prop_read_st st (Ref a) p =
     (case cell_at st a of Some c \<Rightarrow> read_cell c p | None \<Rightarrow> Outside)"

fun prop_write_st :: "store \<Rightarrow> ref \<Rightarrow> pkey \<Rightarrow> ref \<Rightarrow> store res" where
  "prop_write_st st (Ref a) p v =
     (case cell_at st a of
        Some c \<Rightarrow> bind_res (write_cell c p v) (\<lambda>c'. Ok (st[a := c']))
      | None \<Rightarrow> Outside)"
| "prop_write_st st RUndefined p v = Raise"
| "prop_write_st st RNull p v = Raise"
| "prop_write_st st r p v = (if key_string p = ''__proto__'' then Ok st else Raise)"

text \<open>\<open>result.splice(prop, 1)\<close> and \<open>delete result[prop]\<close>, reached with an array and an object.\<close>

fun splice_st :: "store \<Rightarrow> ref \<Rightarrow> pkey \<Rightarrow> store res" where
  "splice_st st (Ref a) p =
     (case cell_at st a of
        Some (CArr xs ps) \<Rightarrow>
          bind_res (to_integer p) (\<lambda>start. Ok (st[a := CArr (splice1 xs start) ps]))
      | _ \<Rightarrow> Outside)"
| "splice_st st r p = Outside"

fun delete_st :: "store \<Rightarrow> ref \<Rightarrow> pkey \<Rightarrow> store res" where
  "delete_st st (Ref a) p =
     (case cell_at st a of
        Some (CObj kvs) \<Rightarrow> Ok (st[a := CObj (AList.delete (key_string p) kvs)])
      | _ \<Rightarrow> Outside)"
| "delete_st st r p = Outside"

fun arr_elems_st :: "store \<Rightarrow> ref \<Rightarrow> ref option list" where
  "arr_elems_st st (Ref a) = (case cell_at st a of Some (CArr xs ps) \<Rightarrow> xs | _ \<Rightarrow> [])"
| "arr_elems_st st r = []"

definition arr_length_st :: "store \<Rightarrow> ref \<Rightarrow> nat" where
  "arr_length_st st r = length (arr_elems_st st r)"

definition has_index_st :: "store \<Rightarrow> ref \<Rightarrow> nat \<Rightarrow> bool" where
  "has_index_st st r i = (i < length (arr_elems_st st r) \<and> arr_elems_st st r ! i \<noteq> None)"

fun object_entries_st :: "store \<Rightarrow> ref \<Rightarrow> (string \<times> ref) list" where
  "object_entries_st st (Ref a) = (case cell_at st a of Some (CObj kvs) \<Rightarrow> kvs | _ \<Rightarrow> [])"
| "object_entries_st st r = []"

definition object_keys_st :: "store \<Rightarrow> ref \<Rightarrow> string list" where
  "object_keys_st st r = map fst (object_entries_st st r)"

definition object_values_st :: "store \<Rightarrow> ref \<Rightarrow> ref list" where
  "object_values_st st r = map snd (object_entries_st st r)"

text \<open>The spread copy of an array or a plain object: a new cell.\<close>

fun copyOf_st :: "store \<Rightarrow> ref \<Rightarrow> ref \<times> store" where
  "copyOf_st st (Ref a) =
     (case cell_at st a of
        Some (CArr xs ps) \<Rightarrow> alloc st (CArr (dense RUndefined xs) [])
      | Some (CObj kvs) \<Rightarrow> alloc st (CObj kvs)
      | _ \<Rightarrow> (Ref a, st))"
| "copyOf_st st r = (r, st)"

partial_function (option)
  findDirectPropInObject_st ::
    "store \<Rightarrow> ref \<Rightarrow> pkey \<Rightarrow> bool \<Rightarrow> rrepl option \<Rightarrow> (ref \<times> store) res option" where
  "findDirectPropInObject_st st obj prop copyByRef args =
    (let ty = getObjectType_st st obj; shouldReplace = (\<not> Option.is_none args) in
     if ty \<noteq> ''array'' \<and> ty \<noteq> ''object'' then Some (Ok (obj, st))
     else
       case (if \<not> copyByRef then copyOf_st st obj else (obj, st)) of (result, st) \<Rightarrow>
       if prop = PStr '''' then
         (if shouldReplace then Some (Ok (result, st)) else Some (Ok (RUndefined, st)))
       else if prop = PStr ''*'' then
         (case args of
            Some value \<Rightarrow>
              if ty = ''array'' then
                (if is_undefined_st value then
                   bnd (whileM (\<lambda>st. arr_length_st st result \<noteq> 0)
                          (\<lambda>st. bnd (findDirectPropInObject_st st result (PNum 0) True (Some value))
                                  (\<lambda>(r, st). Some (Ok st)))
                          st)
                     (\<lambda>st. Some (Ok (result, st)))
                 else
                   let len = arr_length_st st result in
                   bnd (forEachM (\<lambda>index st.
                          if has_index_st st result index then
                            (let itemIndex = len - 1 - index in
                             bnd (case value of
                                    RTrans f \<Rightarrow>
                                      bnd (Some (prop_read_st st result (PNum itemIndex)))
                                        (\<lambda>item. Some (Ok (f item)))
                                  | RLit v \<Rightarrow> Some (Ok v))
                               (\<lambda>itemValue.
                                  if itemValue = RUndefined then
                                    bnd (findDirectPropInObject_st st result (PNum itemIndex) True
                                           (Some (RLit RUndefined)))
                                      (\<lambda>(r, st). Some (Ok st))
                                  else
                                    bnd (findDirectPropInObject_st st result (PNum itemIndex)
                                           copyByRef (Some (RLit itemValue)))
                                      (\<lambda>(newResult, st).
                                         bnd (Some (prop_read_st st newResult (PNum itemIndex)))
                                           (\<lambda>v. Some (prop_write_st st result (PNum itemIndex) v)))))
                          else Some (Ok st))
                        [0..<len] st)
                     (\<lambda>st. Some (Ok (result, st))))
              else
                bnd (forEachM (\<lambda>key st.
                        bnd (findDirectPropInObject_st st result (PStr key) True (Some value))
                          (\<lambda>(r, st). Some (Ok st)))
                      (object_keys_st st result) st)
                  (\<lambda>st. Some (Ok (result, st)))
          | None \<Rightarrow>
              if ty = ''array'' then Some (Ok (result, st))
              else Some (Ok (alloc st (CArr (map Some (object_values_st st result)) []))))
       else
         (case args of
            Some value \<Rightarrow>
              bnd (case value of
                     RTrans f \<Rightarrow>
                       bnd (Some (prop_read_st st result prop)) (\<lambda>cur. Some (Ok (f cur)))
                   | RLit v \<Rightarrow> Some (Ok v))
                (\<lambda>replaceWith.
                   bnd (Some (if replaceWith = RUndefined \<and> ty = ''array''
                              then splice_st st result prop
                              else if replaceWith = RUndefined \<and> ty = ''object''
                              then delete_st st result prop
                              else prop_write_st st result prop replaceWith))
                     (\<lambda>st. Some (Ok (result, st))))
          | None \<Rightarrow> bnd (Some (prop_read_st st result prop)) (\<lambda>v. Some (Ok (v, st)))))"

declare findDirectPropInObject_st.simps [code]

fun falsy_st :: "ref \<Rightarrow> bool" where
  "falsy_st RUndefined = True"
| "falsy_st RNull = True"
| "falsy_st (RBool b) = (\<not> b)"
| "falsy_st (RNum n) = (n = 0)"
| "falsy_st (RStr s) = (s = [])"
| "falsy_st (Ref a) = False"

function findPropInObject_st ::
    "store \<Rightarrow> ref \<Rightarrow> string \<Rightarrow> bool \<Rightarrow> rrepl option \<Rightarrow> (ref \<times> store) res option" where
  "findPropInObject_st st obj pathStr copyByRef args =
    (let ty = getObjectType_st st obj; path = parsePath pathStr in
     if length path = 1 then findDirectPropInObject_st st obj (PStr (hd path)) copyByRef args
     else
       case (if \<not> copyByRef then copyOf_st st obj else (obj, st)) of (result, st) \<Rightarrow>
       let prop = hd path; remainingPath = join_dots (tl path) in
       case args of
         Some value \<Rightarrow>
           if prop = ''*'' then
             (if ty = ''array'' then
                bnd (forEachM (\<lambda>index st.
                        if has_index_st st result index then
                          bnd (Some (prop_read_st st result (PNum index)))
                            (\<lambda>item. bnd (findPropInObject_st st item remainingPath copyByRef args)
                               (\<lambda>(r, st). Some (prop_write_st st result (PNum index) r)))
                        else Some (Ok st))
                      [0..<arr_length_st st result] st)
                  (\<lambda>st. Some (Ok (result, st)))
              else if ty = ''object'' then
                bnd (forEachM (\<lambda>key st.
                        bnd (Some (prop_read_st st result (PStr key)))
                          (\<lambda>item. bnd (findPropInObject_st st item remainingPath copyByRef args)
                             (\<lambda>(r, st). Some (prop_write_st st result (PStr key) r))))
                      (object_keys_st st result) st)
                  (\<lambda>st. Some (Ok (result, st)))
              else Some (Ok (result, st)))
           else
             bnd (Some (prop_read_st st result (PStr prop)))
               (\<lambda>cur. bnd (if cur = RUndefined then
                              (case alloc st (CObj []) of (e, st) \<Rightarrow>
                                 Some (prop_write_st st result (PStr prop) e))
                            else Some (Ok st))
                  (\<lambda>st. bnd (Some (prop_read_st st result (PStr prop)))
                     (\<lambda>cur. bnd (findPropInObject_st st cur remainingPath copyByRef args)
                        (\<lambda>(r, st). bnd (Some (prop_write_st st result (PStr prop) r))
                           (\<lambda>st. Some (Ok (result, st)))))))
       | None \<Rightarrow>
           if prop = ''*'' \<and> ty = ''array'' then
             bnd (forEachM (\<lambda>index (rs, st).
                     if has_index_st st result index then
                       bnd (Some (prop_read_st st result (PNum index)))
                         (\<lambda>item. bnd (findPropInObject_st st item remainingPath copyByRef None)
                            (\<lambda>(r, st). Some (Ok (rs @ [Some r], st))))
                     else Some (Ok (rs @ [None], st)))
                   [0..<arr_length_st st result] ([], st))
               (\<lambda>(rs, st). Some (Ok (alloc st (CArr rs []))))
           else if prop = ''*'' \<and> ty = ''object'' then
             bnd (forEachM (\<lambda>item (rs, st).
                     bnd (findPropInObject_st st item remainingPath copyByRef None)
                       (\<lambda>(r, st). Some (Ok (rs @ [Some r], st))))
                   (object_values_st st result) ([], st))
               (\<lambda>(rs, st). Some (Ok (alloc st (CArr rs []))))
           else
             bnd (Some (prop_read_st st result (PStr prop)))
               (\<lambda>cur. if falsy_st cur then
                         (case alloc st (CObj []) of (e, st) \<Rightarrow>
                            findPropInObject_st st e remainingPath copyByRef None)
                       else findPropInObject_st st cur remainingPath copyByRef None))"
  by pat_completeness auto
termination
  by (relation "measure (\<lambda>(st, obj, pathStr, copyByRef, args). length pathStr)")
     (auto simp: remaining_shorter)

declare findPropInObject_st.simps [simp del]

text \<open>\<open>mergeObjects\<close> over the store, for a base and a fragment that are data.\<close>

fun object_spread_st :: "store \<Rightarrow> ref \<Rightarrow> cell res" where
  "object_spread_st st (Ref a) =
     (case cell_at st a of
        Some (CObj kvs) \<Rightarrow> Ok (CObj kvs)
      | Some (CArr xs ps) \<Rightarrow> Ok (CObj (map (\<lambda>i. (show_nat i, the (xs ! i))) (present xs) @ ps))
      | _ \<Rightarrow> Outside)"
| "object_spread_st st (RStr s) = Ok (CObj (map (\<lambda>i. (show_nat i, RStr [s ! i])) [0..<length s]))"
| "object_spread_st st r = Ok (CObj [])"

fun keys_of_st :: "store \<Rightarrow> ref \<Rightarrow> string list res" where
  "keys_of_st st RUndefined = Raise"
| "keys_of_st st RNull = Raise"
| "keys_of_st st (Ref a) =
     (case cell_at st a of
        Some (CObj kvs) \<Rightarrow> Ok (map fst kvs)
      | Some (CArr xs ps) \<Rightarrow> Ok (map show_nat (present xs) @ map fst ps)
      | _ \<Rightarrow> Outside)"
| "keys_of_st st (RStr s) = Ok (map show_nat [0..<length s])"
| "keys_of_st st r = Ok []"

definition mergeObjects_st :: "store \<Rightarrow> ref \<Rightarrow> ref \<Rightarrow> (ref \<times> store) res option" where
  "mergeObjects_st st objA objB =
     bnd (Some (keys_of_st st objB))
       (\<lambda>keys. bnd (Some (object_spread_st st objA))
          (\<lambda>c. forEachM (\<lambda>next (prev, st).
                    bnd (Some (prop_read_st st objB (PStr next)))
                      (\<lambda>v. findPropInObject_st st prev next False (Some (RLit v))))
                  keys (alloc st c)))"


subsection \<open>What a call leaves unchanged\<close>

text \<open>
  \<open>unchanged_except X A st st'\<close>: every cell of \<open>st\<close> of the sort \<open>X\<close> whose address is not in
  \<open>A\<close> is still there, unchanged, in \<open>st'\<close>. \<open>preserved st st'\<close>: every cell of \<open>st\<close> is
  unchanged in \<open>st'\<close>. \<open>kept st st'\<close>: every array and every plain object of \<open>st\<close> is.
\<close>

fun plain_cell :: "cell \<Rightarrow> bool" where
  "plain_cell (COther ms ps) = False"
| "plain_cell c = True"

definition unchanged_except :: "(cell \<Rightarrow> bool) \<Rightarrow> addr set \<Rightarrow> store \<Rightarrow> store \<Rightarrow> bool" where
  "unchanged_except X A st st' =
     (length st \<le> length st' \<and> (\<forall>a < length st. a \<notin> A \<and> X (st ! a) \<longrightarrow> st' ! a = st ! a))"

definition kept :: "store \<Rightarrow> store \<Rightarrow> bool" where
  "kept st st' =
     (length st \<le> length st' \<and> (\<forall>a < length st. plain_cell (st ! a) \<longrightarrow> st' ! a = st ! a))"


fun addrs :: "ref \<Rightarrow> addr set" where
  "addrs (Ref a) = {a}"
| "addrs r = {}"

definition chg :: "ref \<Rightarrow> bool \<Rightarrow> rrepl option \<Rightarrow> addr set" where
  "chg obj cbr args = (if cbr \<and> args \<noteq> None then addrs obj else {})"

subsection \<open>Paths through the plain objects of a store\<close>



section \<open>Equations of findDirectPropInObject\<close>

lemma type_copyOf [simp]: "getObjectType (copyOf v) = getObjectType v"
  by (cases v) auto

lemma fdp_not_composite:
  "getObjectType obj \<noteq> ''array'' \<Longrightarrow> getObjectType obj \<noteq> ''object''
     \<Longrightarrow> findDirectPropInObject obj p c a = Some (Ok obj)"
  by (subst findDirectPropInObject.simps) (simp add: Let_def)

lemma fdp_literal:
  assumes "getObjectType obj = ''array'' \<or> getObjectType obj = ''object''"
    and "p \<noteq> PStr ''''" and "p \<noteq> PStr ''*''"
  shows "findDirectPropInObject obj p c a =
     (case a of
        Some value \<Rightarrow>
          bnd (case value of
                 Trans f \<Rightarrow> bnd (Some (prop_read (if c then obj else copyOf obj) p))
                              (\<lambda>cur. Some (Ok (f cur)))
               | Lit v \<Rightarrow> Some (Ok v))
            (\<lambda>replaceWith.
               if replaceWith = Undefined \<and> getObjectType obj = ''array''
               then Some (splice (if c then obj else copyOf obj) p)
               else if replaceWith = Undefined \<and> getObjectType obj = ''object''
               then Some (Ok (delete_prop (if c then obj else copyOf obj) p))
               else Some (prop_write (if c then obj else copyOf obj) p replaceWith))
      | None \<Rightarrow> Some (prop_read (if c then obj else copyOf obj) p))"
  apply (subst findDirectPropInObject.simps)
  unfolding Let_def
  using assms by (auto split: option.splits)


lemma splice_first: "splice (Arr (x # xs) ps) (PNum 0) = Ok (Arr xs ps)"
  by (simp add: splice_def splice1_def)

lemma delete_all_loop:
  "whileM (\<lambda>result. arr_elems result \<noteq> [])
     (\<lambda>result. findDirectPropInObject result (PNum 0) True (Some (Lit Undefined))) (Arr xs ps)
   = Some (Ok (Arr [] ps))"
proof (induction xs)
  case Nil
  show ?case by (subst whileM.simps) simp
next
  case (Cons x xs)
  have "findDirectPropInObject (Arr (x # xs) ps) (PNum 0) True (Some (Lit Undefined))
          = Some (Ok (Arr xs ps))"
    by (simp add: fdp_literal splice_first)
  with Cons show ?case by (subst whileM.simps) simp
qed

lemma fdp_wildcard_delete_array:
  "findDirectPropInObject (Arr xs ps) (PStr ''*'') c (Some (Lit Undefined))
     = Some (Ok (Arr [] (if c then ps else [])))"
  by (subst findDirectPropInObject.simps) (simp add: Let_def delete_all_loop)

lemma parsePath_star: "parsePath ''*'' = [''*'']"
  by (simp add: parsePath_def strip_brackets_def brackets_to_dots_def)

section \<open>Equations of findPropInObject\<close>

lemmas parse_defs = parsePath_def strip_brackets_def brackets_to_dots_def

lemma fpo_single:
  "length (parsePath p) = 1 \<Longrightarrow>
     findPropInObject obj p c a = findDirectPropInObject obj (PStr (hd (parsePath p))) c a"
  by (subst findPropInObject.simps) (simp add: Let_def)

lemma fpo_read:
  assumes "length (parsePath p) \<noteq> 1"
    and "hd (parsePath p) \<noteq> ''*''
         \<or> (getObjectType obj \<noteq> ''array'' \<and> getObjectType obj \<noteq> ''object'')"
  shows "findPropInObject obj p c None =
     bnd (Some (prop_read (if c then obj else copyOf obj) (PStr (hd (parsePath p)))))
       (\<lambda>cur. findPropInObject (if falsy cur then Obj [] else cur) (join_dots (tl (parsePath p)))
                  c None)"
  apply (subst findPropInObject.simps)
  unfolding Let_def
  using assms by auto

lemma fpo_write:
  assumes "length (parsePath p) \<noteq> 1" and "hd (parsePath p) \<noteq> ''*''"
  shows "findPropInObject obj p c (Some v) =
     bnd (Some (prop_read (if c then obj else copyOf obj) (PStr (hd (parsePath p)))))
       (\<lambda>cur. bnd (if cur = Undefined
                   then Some (prop_write (if c then obj else copyOf obj) (PStr (hd (parsePath p)))
                                (Obj []))
                   else Some (Ok (if c then obj else copyOf obj)))
          (\<lambda>result. bnd (Some (prop_read result (PStr (hd (parsePath p)))))
             (\<lambda>cur. bnd (findPropInObject cur (join_dots (tl (parsePath p))) c (Some v))
                (\<lambda>r. Some (prop_write result (PStr (hd (parsePath p))) r)))))"
  apply (subst findPropInObject.simps)
  unfolding Let_def
  using assms by auto

lemma fpo_write_wildcard_not_composite:
  assumes "length (parsePath p) \<noteq> 1" and "hd (parsePath p) = ''*''"
    and "getObjectType obj \<noteq> ''array''" and "getObjectType obj \<noteq> ''object''"
  shows "findPropInObject obj p c (Some v) = Some (Ok obj)"
proof -
  from assms(3,4) have "copyOf obj = obj" by (cases obj) auto
  then show ?thesis
    apply (subst findPropInObject.simps)
    unfolding Let_def
    using assms by auto
qed

section \<open>Facts about the path string\<close>

lemma fpo_cong_path:
  "parsePath p = parsePath q \<Longrightarrow> findPropInObject obj p c a = findPropInObject obj q c a"
  apply (subst findPropInObject.simps[of obj p])
  apply (subst findPropInObject.simps[of obj q])
  apply (simp only:)
  done

lemma split_dots_dotfree: "s \<in> set (split_dots t) \<Longrightarrow> CHR ''.'' \<notin> set s"
proof (induction t arbitrary: s)
  case Nil
  then show ?case by simp
next
  case (Cons c cs)
  then show ?case
    by (cases "split_dots cs") (auto split: if_splits)
qed

lemma split_join:
  "segs \<noteq> [] \<Longrightarrow> \<forall>s\<in>set segs. CHR ''.'' \<notin> set s \<Longrightarrow> split_dots (join_dots segs) = segs"
proof (induction segs rule: join_dots.induct)
  case 1
  then show ?case by simp
next
  case (2 s)
  then show ?case by (induction s) auto
next
  case (3 s t ts)
  then have IH: "split_dots (join_dots (t # ts)) = t # ts" by simp
  from 3(3) have "CHR ''.'' \<notin> set s" by simp
  then have "split_dots (s @ CHR ''.'' # join_dots (t # ts)) = s # split_dots (join_dots (t # ts))"
    by (induction s) auto
  with IH show ?case by simp
qed

lemma collapse_fix_tl: "collapse_dots (x # xs) = x # xs \<Longrightarrow> collapse_dots xs = xs"
proof (cases xs)
  case Nil
  then show ?thesis by simp
next
  case (Cons y ys)
  assume a: "collapse_dots (x # xs) = x # xs"
  show ?thesis
  proof (cases "x = CHR ''.'' \<and> y = CHR ''.''")
    case True
    with a Cons have "collapse_dots (y # ys) = x # y # ys" by simp
    then have "length (collapse_dots (y # ys)) = Suc (length (y # ys))" by simp
    with length_collapse[of "y # ys"] show ?thesis by simp
  next
    case False
    with a Cons show ?thesis by auto
  qed
qed

lemma collapse_fix_suffix: "collapse_dots (a @ b) = a @ b \<Longrightarrow> collapse_dots b = b"
  by (induction a) (auto dest: collapse_fix_tl)

lemma collapse_hd: "\<exists>r. collapse_dots (b # cs) = b # r"
  by (induction "b # cs" arbitrary: b cs rule: collapse_dots.induct) auto

lemma collapse_idem: "collapse_dots (collapse_dots s) = collapse_dots s"
proof (induction s rule: collapse_dots.induct)
  case (1 a b cs)
  obtain r where r: "collapse_dots (b # cs) = b # r" using collapse_hd by blast
  with 1 show ?case by auto
qed auto

lemma strip_plain: "\<forall>c\<in>set s. c \<noteq> CHR ''['' \<and> c \<noteq> CHR '']'' \<Longrightarrow> strip_brackets s = s"
  by (cases s) (auto simp: strip_brackets_def Let_def)

lemma b2d_plain: "\<forall>c\<in>set s. c \<noteq> CHR ''['' \<and> c \<noteq> CHR '']'' \<Longrightarrow> brackets_to_dots s = s"
  unfolding brackets_to_dots_def by (induction s) simp_all

lemma b2d_no_brackets:
  assumes "c \<in> set (brackets_to_dots s)"
  shows "c \<noteq> CHR ''['' \<and> c \<noteq> CHR '']''"
proof -
  from assms have "c \<in> (\<lambda>c. if c = CHR ''['' \<or> c = CHR '']'' then CHR ''.'' else c) ` set s"
    unfolding brackets_to_dots_def set_map .
  then obtain x where "c = (if x = CHR ''['' \<or> x = CHR '']'' then CHR ''.'' else x)"
    by (rule imageE)
  then show ?thesis by (cases "x = CHR ''['' \<or> x = CHR '']''") simp_all
qed

lemma set_collapse: "set (collapse_dots s) \<subseteq> set s"
  by (induction s rule: collapse_dots.induct) auto

lemma set_join_tl: "set (join_dots (tl segs)) \<subseteq> set (join_dots segs)"
  by (cases segs rule: join_dots.cases) auto

lemma join_tl_suffix: "length segs \<noteq> 1 \<Longrightarrow> \<exists>a. join_dots segs = a @ join_dots (tl segs)"
  by (cases segs rule: join_dots.cases) auto

lemma parse_clean:
  assumes "\<forall>c\<in>set t. c \<noteq> CHR ''['' \<and> c \<noteq> CHR '']''" and "collapse_dots t = t"
  shows "parsePath t = split_dots t"
  using assms by (simp add: parsePath_def strip_plain b2d_plain)

lemma parse_remaining:
  assumes "length (parsePath p) \<noteq> 1"
  shows "parsePath (join_dots (tl (parsePath p))) = tl (parsePath p)"
proof -
  let ?t = "collapse_dots (brackets_to_dots (strip_brackets p))"
  let ?segs = "split_dots ?t"
  have segs: "parsePath p = ?segs" by (simp add: parsePath_def)
  have nb: "\<forall>c\<in>set ?t. c \<noteq> CHR ''['' \<and> c \<noteq> CHR '']''"
    using set_collapse[of "brackets_to_dots (strip_brackets p)"] b2d_no_brackets by blast
  have nb': "\<forall>c\<in>set (join_dots (tl ?segs)). c \<noteq> CHR ''['' \<and> c \<noteq> CHR '']''"
    using nb set_join_tl[of ?segs] by auto
  have "length ?segs \<noteq> 1" using assms segs by simp
  then obtain a where "join_dots ?segs = a @ join_dots (tl ?segs)"
    using join_tl_suffix[of ?segs] by blast
  then have a: "?t = a @ join_dots (tl ?segs)" by simp
  have "collapse_dots ?t = ?t" by (rule collapse_idem)
  then have "collapse_dots (a @ join_dots (tl ?segs)) = a @ join_dots (tl ?segs)"
    using a by simp
  then have fx: "collapse_dots (join_dots (tl ?segs)) = join_dots (tl ?segs)"
    by (rule collapse_fix_suffix)
  have ne: "tl ?segs \<noteq> []"
    using assms segs by (cases ?segs) auto
  have df: "\<forall>s\<in>set (tl ?segs). CHR ''.'' \<notin> set s"
  proof
    fix s assume "s \<in> set (tl ?segs)"
    then have "s \<in> set ?segs" by (rule list.set_sel(2)[rotated]) simp
    then show "CHR ''.'' \<notin> set s" by (rule split_dots_dotfree)
  qed
  have "parsePath (join_dots (tl ?segs)) = split_dots (join_dots (tl ?segs))"
    using nb' fx by (rule parse_clean)
  also have "\<dots> = tl ?segs" using ne df by (rule split_join)
  finally show ?thesis by (simp add: segs)
qed

lemma parse_plain_key:
  assumes "\<forall>c\<in>set k. plain_char c"
  shows "parsePath k = [k]"
proof -
  have nd: "CHR ''.'' \<notin> set k" using assms by (auto simp: plain_char_def)
  have c: "collapse_dots k = k" using nd by (induction k rule: collapse_dots.induct) auto
  have s: "split_dots k = [k]" using nd by (induction k) auto
  have "parsePath k = split_dots k"
    using assms c by (intro parse_clean) (auto simp: plain_char_def)
  with s show ?thesis by simp
qed


section \<open>Facts about reading and writing a property\<close>

lemma map_of_put_entry: "map_of (put_entry k v kvs) = (map_of kvs)(k \<mapsto> v)"
proof (cases "map_of kvs k \<noteq> None")
  case True
  then show ?thesis by (simp add: put_entry_def update_conv')
next
  case False
  then have nk: "k \<notin> fst ` set kvs" by (simp add: map_of_eq_None_iff)
  show ?thesis
  proof (cases "array_index k")
    case None
    with False show ?thesis by (auto simp: put_entry_def map_add_def split: option.splits)
  next
    case (Some i)
    define before where
      "before = (\<lambda>(k', w :: 'a). case array_index k' of Some j \<Rightarrow> j < i | None \<Rightarrow> False)"
    have eq: "put_entry k v kvs = takeWhile before kvs @ (k, v) # dropWhile before kvs"
      using False Some by (simp add: put_entry_def before_def Let_def)
    have "map_of (takeWhile before kvs @ (k, v) # dropWhile before kvs) k' =
            ((map_of kvs)(k \<mapsto> v)) k'" for k'
    proof (cases "k' = k")
      case True
      have "k \<notin> fst ` set (takeWhile before kvs)" using nk by (auto dest: set_takeWhileD)
      then have "map_of (takeWhile before kvs) k = None" by (simp add: map_of_eq_None_iff)
      with True show ?thesis by (simp add: map_add_def)
    next
      case False
      have "map_of kvs k' = map_of (takeWhile before kvs @ dropWhile before kvs) k'" by simp
      also have "\<dots> = map_of (takeWhile before kvs @ (k, v) # dropWhile before kvs) k'"
        using False unfolding map_of_append by (simp add: map_add_def split: option.splits)
      finally show ?thesis using False by simp
    qed
    with eq show ?thesis by auto
  qed
qed

lemma inherited_proto [simp]:
  "inherited ''object'' ''__proto__''" "inherited ''array'' ''__proto__''"
  by (simp_all add: inherited_def members_of_def object_members_def)

lemma index_of_string: "array_index s = Some i \<Longrightarrow> to_index (PStr s) = Some i"
  by simp

lemma nth_dense: "i < length xs \<Longrightarrow> dense u xs ! i = Some (case xs ! i of Some v \<Rightarrow> v | None \<Rightarrow> u)"
  by (simp add: dense_def)

lemma length_dense [simp]: "length (dense u xs) = length xs"
  by (simp add: dense_def)

lemma container_ok_composite:
  "container_ok c s \<Longrightarrow> getObjectType c = ''array'' \<or> getObjectType c = ''object''"
  by (cases c) auto

lemma last_ok_composite:
  "last_ok x c s \<Longrightarrow> getObjectType c = ''array'' \<or> getObjectType c = ''object''"
  by (cases c) auto

lemma path_ok_composite:
  "path_ok x c segs \<Longrightarrow> getObjectType c = ''array'' \<or> getObjectType c = ''object''"
  by (cases "(x, c, segs)" rule: path_ok.cases)
     (auto dest: container_ok_composite last_ok_composite)

lemma composite_not_falsy:
  "getObjectType c = ''array'' \<or> getObjectType c = ''object'' \<Longrightarrow> \<not> falsy c"
  by (cases c) auto

lemma container_ok_copyOf [simp]: "container_ok (copyOf c) s = container_ok c s"
  by (cases c) auto

text \<open>Where a container takes a segment, the segment reads the same on the copy.\<close>

lemma read_ok:
  assumes "container_ok c s"
  shows "prop_read c (PStr s) = Ok (lookup c (PStr s))"
    and "prop_read (copyOf c) (PStr s) = Ok (lookup c (PStr s))"
proof -
  show a: "prop_read c (PStr s) = Ok (lookup c (PStr s))"
  proof (cases c)
    case (Obj kvs)
    with assms show ?thesis
      by (auto simp: lookup_def object_slot_def split: option.splits)
  next
    case (Arr xs ps)
    with assms obtain i where "array_index s = Some i" by auto
    with Arr show ?thesis
      by (auto simp: lookup_def array_slot_def split: option.splits)
  qed (use assms in auto)
  show "prop_read (copyOf c) (PStr s) = Ok (lookup c (PStr s))"
  proof (cases c)
    case (Obj kvs)
    with a show ?thesis by simp
  next
    case (Arr xs ps)
    with assms obtain i where "array_index s = Some i" by auto
    with Arr show ?thesis
      by (auto simp: lookup_def array_slot_def nth_dense split: option.splits)
  qed (use assms in auto)
qed

text \<open>Where a container takes a segment, it takes a value there and gives it back.\<close>

lemma write_ok:
  assumes "container_ok c s"
  shows "\<exists>c'. prop_write c (PStr s) v = Ok c' \<and> getObjectType c' = getObjectType c
           \<and> prop_read c' (PStr s) = Ok v \<and> prop_read (copyOf c') (PStr s) = Ok v
           \<and> container_ok c' s"
proof (cases c)
  case (Arr xs ps)
  with assms obtain i where i: "array_index s = Some i" by auto
  show ?thesis
  proof (cases "i < length xs")
    case True
    with Arr i show ?thesis by (simp add: array_put_def array_slot_def nth_dense)
  next
    case False
    then have "(xs @ replicate (i - length xs) None @ [Some v]) ! i = Some v"
      by (simp add: nth_append)
    with False Arr i show ?thesis by (simp add: array_put_def array_slot_def nth_dense)
  qed
next
  case (Obj kvs)
  with assms have "\<not> (s = ''__proto__'' \<and> map_of kvs ''__proto__'' = None)"
    by auto
  with Obj show ?thesis
    by (auto simp: object_put_def object_slot_def map_of_put_entry)
qed (use assms in auto)


section \<open>Writing and reading back\<close>

lemma last_write_ok:
  assumes "last_ok x c s" and "x \<noteq> Undefined"
  shows "\<exists>c'. prop_write (copyOf c) (PStr s) x = Ok c' \<and> getObjectType c' = getObjectType c
           \<and> prop_read (copyOf c') (PStr s) = Ok x"
proof (cases c)
  case (Arr xs ps)
  with assms obtain i where i: "array_index s = Some i" by auto
  show ?thesis
  proof (cases "i < length xs")
    case True
    with Arr i show ?thesis by (simp add: array_put_def array_slot_def nth_dense)
  next
    case False
    then have "(dense Undefined xs @ replicate (i - length xs) None @ [Some x]) ! i = Some x"
      by (simp add: nth_append)
    with False Arr i show ?thesis by (simp add: array_put_def array_slot_def nth_dense)
  qed
next
  case (Obj kvs)
  with assms have "\<not> (s = ''__proto__'' \<and> map_of kvs ''__proto__'' = None)" by auto
  with Obj show ?thesis
    by (auto simp: object_put_def object_slot_def map_of_put_entry)
qed (use assms in auto)

lemma last_delete_ok:
  assumes "last_ok Undefined c s"
  shows "\<exists>kvs. c = Obj kvs \<and> prop_read (Obj (AList.delete s kvs)) (PStr s) = Ok Undefined"
proof (cases c)
  case (Obj kvs)
  with assms show ?thesis by (simp add: object_slot_def delete_conv')
qed (use assms in auto)

lemma round_trip_segs:
  "parsePath p = segs \<Longrightarrow> path_ok x root segs \<Longrightarrow>
     \<exists>r. findPropInObject root p False (Some (Lit x)) = Some (Ok r)
        \<and> getObjectType r = getObjectType root
        \<and> findPropInObject r p False None = Some (Ok x)"
proof (induction x root segs arbitrary: p rule: path_ok.induct)
  case (1 x c)
  then show ?case by simp
next
  case (2 x c s)
  then have len: "length (parsePath p) = 1" and hd: "hd (parsePath p) = s" by simp_all
  from 2 have s: "PStr s \<noteq> PStr ''''" "PStr s \<noteq> PStr ''*''" and ok: "last_ok x c s"
    by simp_all
  note comp = last_ok_composite[OF ok]
  show ?case
  proof (cases "x = Undefined")
    case True
    with ok last_delete_ok obtain kvs where c: "c = Obj kvs"
      and rd: "prop_read (Obj (AList.delete s kvs)) (PStr s) = Ok Undefined" by blast
    have w: "findPropInObject c p False (Some (Lit x)) = Some (Ok (Obj (AList.delete s kvs)))"
      using True c s by (simp add: fpo_single len hd fdp_literal delete_prop_def)
    have r: "findPropInObject (Obj (AList.delete s kvs)) p False None = Some (Ok x)"
      using True s rd by (simp add: fpo_single len hd fdp_literal)
    from w r c show ?thesis by simp
  next
    case False
    from last_write_ok[OF ok False] obtain c' where c':
      "prop_write (copyOf c) (PStr s) x = Ok c'"
      "getObjectType c' = getObjectType c" "prop_read (copyOf c') (PStr s) = Ok x" by blast
    have w: "findPropInObject c p False (Some (Lit x)) = Some (Ok c')"
      using False comp s c'(1) by (simp add: fpo_single len hd fdp_literal)
    have r: "findPropInObject c' p False None = Some (Ok x)"
      using comp s c'(2,3) by (simp add: fpo_single len hd fdp_literal)
    from w r c'(2) show ?thesis by simp
  qed
next
  case (3 x c s t rest)
  let ?cur = "lookup c (PStr s)"
  let ?sub = "if ?cur = Undefined then Obj [] else ?cur"
  let ?p' = "join_dots (tl (parsePath p))"
  from 3 have len: "length (parsePath p) \<noteq> 1" and hd: "hd (parsePath p) = s"
    and tl: "tl (parsePath p) = t # rest" by simp_all
  from 3 have s: "s \<noteq> ''*''" and ok: "container_ok c s" and sub: "path_ok x ?sub (t # rest)"
    by simp_all
  have ok': "container_ok (copyOf c) s" using ok by simp
  have p': "parsePath ?p' = t # rest" using parse_remaining[OF len] tl by simp
  from "3.IH"[OF p' sub] obtain r' where r':
    "findPropInObject ?sub ?p' False (Some (Lit x)) = Some (Ok r')"
    "getObjectType r' = getObjectType ?sub"
    "findPropInObject r' ?p' False None = Some (Ok x)" by blast
  obtain c1 where c1:
    "(if ?cur = Undefined then Some (prop_write (copyOf c) (PStr s) (Obj []))
      else Some (Ok (copyOf c))) = Some (Ok c1)"
    "getObjectType c1 = getObjectType c" "prop_read c1 (PStr s) = Ok ?sub" "container_ok c1 s"
  proof (cases "?cur = Undefined")
    case True
    from write_ok[OF ok', of "Obj []"] obtain c1 where
      "prop_write (copyOf c) (PStr s) (Obj []) = Ok c1"
      "getObjectType c1 = getObjectType c" "prop_read c1 (PStr s) = Ok (Obj [])"
      "container_ok c1 s"
      by auto
    with True that show ?thesis by simp
  next
    case False
    with that[of "copyOf c"] ok' read_ok(2)[OF ok] show ?thesis by simp
  qed
  from write_ok[OF c1(4), of r'] obtain c2 where c2: "prop_write c1 (PStr s) r' = Ok c2"
    "getObjectType c2 = getObjectType c1" "prop_read (copyOf c2) (PStr s) = Ok r'" by blast
  have w: "findPropInObject c p False (Some (Lit x)) = Some (Ok c2)"
    using s len hd read_ok(2)[OF ok] c1(1,3) r'(1) c2(1)
    by (cases "?cur = Undefined") (simp_all add: fpo_write)
  have nf: "\<not> falsy r'"
    using r'(2) path_ok_composite[OF sub] by (intro composite_not_falsy) simp
  have r: "findPropInObject c2 p False None = Some (Ok x)"
    using s len hd c2(3) nf r'(3) by (simp add: fpo_read)
  from w r c2(2) c1(2) show ?case by simp
qed

section \<open>Removing an entry\<close>







section \<open>Writing into the empty object\<close>

lemmas index_defs = array_index_def is_digit_def decimal_val_def digit_val_def


lemma put_entry_empty [simp]: "put_entry k v [] = [(k, v)]"
  by (simp add: put_entry_def split: option.splits)

lemma put_entry_same [simp]: "put_entry k v [(k, w)] = [(k, v)]"
  by (simp add: put_entry_def)





section \<open>Facts about mergeObjects\<close>

lemma merge_step:
  assumes "key_ok k" and "k \<noteq> ''__proto__'' \<or> map_of kvs k \<noteq> None"
  shows "findPropInObject (Obj kvs) k False (Some (Lit v)) =
           Some (Ok (Obj (if v = Undefined then AList.delete k kvs else put_entry k v kvs)))"
proof -
  from assms have "parsePath k = [k]"
    by (intro parse_plain_key) (simp add: key_ok_def list_all_iff)
  moreover from assms have "PStr k \<noteq> PStr ''''" "PStr k \<noteq> PStr ''*''"
    by (simp_all add: key_ok_def)
  ultimately show ?thesis
    using assms(2) by (auto simp: fpo_single fdp_literal delete_prop_def object_put_def)
qed

lemma merge_loop:
  assumes "list_all key_ok ks"
    and "\<forall>k\<in>set ks. \<exists>v. map_of frag k = Some v \<and> v \<noteq> Undefined"
    and "''__proto__'' \<in> set ks \<longrightarrow> map_of acc ''__proto__'' \<noteq> None"
  shows "\<exists>r. forEachM (\<lambda>next prev.
                  bnd (Some (prop_read (Obj frag) (PStr next)))
                    (\<lambda>v. findPropInObject prev next False (Some (Lit v)))) ks (Obj acc)
                = Some (Ok (Obj r))
           \<and> (\<forall>k. map_of r k = (if k \<in> set ks then map_of frag k else map_of acc k))"
  using assms
proof (induction ks arbitrary: acc)
  case Nil
  then show ?case by simp
next
  case (Cons k ks)
  then obtain v where v: "map_of frag k = Some v" "v \<noteq> Undefined" by auto
  then have lk: "prop_read (Obj frag) (PStr k) = Ok v" by (simp add: object_slot_def)
  from Cons.prems have ok: "key_ok k" by simp
  from Cons.prems(3) have pk: "k \<noteq> ''__proto__'' \<or> map_of acc k \<noteq> None" by auto
  have p3: "''__proto__'' \<in> set ks \<longrightarrow> map_of (put_entry k v acc) ''__proto__'' \<noteq> None"
    using Cons.prems(3) by (auto simp: map_of_put_entry)
  from Cons.prems have "list_all key_ok ks"
    and "\<forall>k\<in>set ks. \<exists>v. map_of frag k = Some v \<and> v \<noteq> Undefined" by simp_all
  from Cons.IH[OF this p3] obtain r where r:
    "forEachM (\<lambda>next prev.
        bnd (Some (prop_read (Obj frag) (PStr next)))
          (\<lambda>v. findPropInObject prev next False (Some (Lit v)))) ks (Obj (put_entry k v acc))
       = Some (Ok (Obj r))"
    "\<forall>k'. map_of r k' = (if k' \<in> set ks then map_of frag k' else map_of (put_entry k v acc) k')"
    by blast
  have "forEachM (\<lambda>next prev.
        bnd (Some (prop_read (Obj frag) (PStr next)))
          (\<lambda>v. findPropInObject prev next False (Some (Lit v)))) (k # ks) (Obj acc)
       = Some (Ok (Obj r))"
    using r(1) v(2) lk by (simp add: merge_step[OF ok pk])
  moreover have "\<forall>k'. map_of r k' = (if k' \<in> set (k # ks) then map_of frag k' else map_of acc k')"
    using r(2) v(1) by (simp add: map_of_put_entry)
  ultimately show ?case by blast
qed

lemma merge_values:
  assumes "list_all key_ok (map fst frag)" and "list_all (\<lambda>v. v \<noteq> Undefined) (map snd frag)"
    and "map_of frag ''__proto__'' \<noteq> None \<longrightarrow> map_of base ''__proto__'' \<noteq> None"
  shows "\<exists>r. mergeObjects (Obj base) (Obj frag) = Some (Ok (Obj r))
           \<and> (\<forall>k. map_of r k = (case map_of frag k of Some v \<Rightarrow> Some v | None \<Rightarrow> map_of base k))"
proof -
  have vals: "\<forall>k\<in>set (map fst frag). \<exists>v. map_of frag k = Some v \<and> v \<noteq> Undefined"
  proof
    fix k assume "k \<in> set (map fst frag)"
    then obtain v where v: "map_of frag k = Some v"
      by (metis domD dom_map_of_conv_image_fst set_map)
    then have "v \<in> set (map snd frag)" by (force dest: map_of_SomeD)
    with assms(2) v show "\<exists>v. map_of frag k = Some v \<and> v \<noteq> Undefined"
      by (auto simp: list_all_iff)
  qed
  have pr: "''__proto__'' \<in> set (map fst frag) \<longrightarrow> map_of base ''__proto__'' \<noteq> None"
    using assms(3) by (auto simp: map_of_eq_None_iff)
  from merge_loop[OF assms(1) vals pr] obtain r where r:
    "forEachM (\<lambda>next prev.
        bnd (Some (prop_read (Obj frag) (PStr next)))
          (\<lambda>v. findPropInObject prev next False (Some (Lit v)))) (map fst frag) (Obj base)
       = Some (Ok (Obj r))"
    "\<forall>k. map_of r k = (if k \<in> set (map fst frag) then map_of frag k else map_of base k)"
    by blast
  have "map_of r k = (case map_of frag k of Some v \<Rightarrow> Some v | None \<Rightarrow> map_of base k)" for k
  proof (cases "map_of frag k")
    case None
    then have "k \<notin> set (map fst frag)" by (simp add: map_of_eq_None_iff)
    with r(2) None show ?thesis by simp
  next
    case (Some v)
    then have "k \<in> set (map fst frag)" by (force dest: map_of_SomeD)
    with r(2) Some show ?thesis by simp
  qed
  with r(1) show ?thesis by (auto simp: mergeObjects_def)
qed

section \<open>Facts about deepCompare\<close>

lemma all_res_Ok:
  "(\<And>x. x \<in> set xs \<Longrightarrow> f x = Ok (g x)) \<Longrightarrow> all_res f xs = Ok (list_all g xs)"
  by (induction xs) simp_all

lemma deepCompare_undefined:
  "deepCompare v Undefined = Ok (v = Undefined)"
  by (subst deepCompare.simps) (cases v; simp add: toString_opt_def)

lemma deepCompare_empty_left:
  assumes "map_of kvs ''toString'' = None"
  shows "deepCompare (Obj []) (Obj kvs) = Ok True"
  using assms by (subst deepCompare.simps) (simp add: toString_opt_def)

lemma deepCompare_empty_right:
  assumes "list_all (\<lambda>k. \<not> inherited ''object'' k) (map fst kvs)"
    and "map_of kvs k = Some v" and "v \<noteq> Undefined"
  shows "deepCompare (Obj kvs) (Obj []) = Ok False"
proof -
  let ?f = "\<lambda>key. bind_res (prop_read (Obj kvs) key)
              (\<lambda>valueA. bind_res (prop_read (Obj []) key) (\<lambda>valueB. deepCompare valueA valueB))"
  let ?g = "\<lambda>key. lookup (Obj kvs) key = Undefined"
  have "?f key = Ok (?g key)" if "key \<in> set (own_keys (Obj kvs))" for key
  proof -
    from that obtain k' where k': "key = PStr k'" "k' \<in> fst ` set kvs" by auto
    then obtain w where w: "map_of kvs k' = Some w"
      by (metis domD dom_map_of_conv_image_fst)
    from k' assms(1) have "\<not> inherited ''object'' k'" by (auto simp: list_all_iff)
    with k' w show ?thesis
      by (simp add: object_slot_def lookup_def deepCompare_undefined)
  qed
  then have a: "all_res ?f (own_keys (Obj kvs)) = Ok (list_all ?g (own_keys (Obj kvs)))"
    by (rule all_res_Ok)
  from assms(2) have "(k, v) \<in> set kvs" by (rule map_of_SomeD)
  then have "PStr k \<in> set (own_keys (Obj kvs))" by force
  moreover have "\<not> ?g (PStr k)" using assms(2,3) by (simp add: lookup_def object_slot_def)
  ultimately have "\<not> list_all ?g (own_keys (Obj kvs))" unfolding list_all_iff by blast
  with a show ?thesis by (subst deepCompare.simps) simp
qed

section \<open>Facts about the store\<close>

lemma ue_refl [simp]: "unchanged_except X A st st"
  by (simp add: unchanged_except_def)

lemma ue_trans:
  assumes "unchanged_except X A s1 s2" and "unchanged_except X B s2 s3"
    and "\<And>a. a < length s1 \<Longrightarrow> a \<in> B \<Longrightarrow> X (s1 ! a) \<Longrightarrow> a \<in> A"
  shows "unchanged_except X A s1 s3"
  unfolding unchanged_except_def
proof (intro conjI allI impI)
  show "length s1 \<le> length s3" using assms(1,2) by (simp add: unchanged_except_def)
  fix a assume a: "a < length s1" "a \<notin> A \<and> X (s1 ! a)"
  with assms(1) have e: "s2 ! a = s1 ! a" by (simp add: unchanged_except_def)
  from a assms(3) have "a \<notin> B" by blast
  moreover from a assms(1) have "a < length s2" by (simp add: unchanged_except_def)
  ultimately have "s3 ! a = s2 ! a" using assms(2) a e by (simp add: unchanged_except_def)
  with e show "s3 ! a = s1 ! a" by simp
qed

lemma ue_trans_same:
  "unchanged_except X A s1 s2 \<Longrightarrow> unchanged_except X A s2 s3 \<Longrightarrow> unchanged_except X A s1 s3"
  by (rule ue_trans)

lemma ue_mono: "unchanged_except X A st st' \<Longrightarrow> A \<subseteq> B \<Longrightarrow> unchanged_except X B st st'"
  unfolding unchanged_except_def by blast

lemma ue_alloc: "unchanged_except X A st (st @ [c])"
  by (simp add: unchanged_except_def nth_append)

lemma ue_update: "unchanged_except X {a} st (st[a := c])"
  by (simp add: unchanged_except_def)

lemma ue_write: "prop_write_st st r p v = Ok st' \<Longrightarrow> unchanged_except X (addrs r) st st'"
  by (cases r) (auto simp: ue_update bind_res_def split: option.splits res.splits if_splits)

lemma ue_splice: "splice_st st r p = Ok st' \<Longrightarrow> unchanged_except X (addrs r) st st'"
  by (cases r) (auto simp: ue_update bind_res_def split: option.splits cell.splits res.splits)

lemma ue_delete: "delete_st st r p = Ok st' \<Longrightarrow> unchanged_except X (addrs r) st st'"
  by (cases r) (auto simp: ue_update split: option.splits cell.splits)

lemma ue_fresh:
  "unchanged_except X {length st} (st @ [c]) st' \<Longrightarrow> unchanged_except X A st st'"
  unfolding unchanged_except_def by (auto simp: nth_append)

lemma ue_alloc_after: "unchanged_except X {} st s \<Longrightarrow> unchanged_except X {} st (s @ [c])"
  by (erule ue_trans[OF _ ue_alloc[of _ "{}"]]) simp

text \<open>A write into a cell that is new, or that is not of the sort in question.\<close>

lemma ue_write_other:
  assumes "unchanged_except X {} st s" and "prop_write_st s r p v = Ok s'"
    and "\<forall>a\<in>addrs r. a < length st \<longrightarrow> \<not> X (st ! a)"
  shows "unchanged_except X {} st s'"
  using assms(1) ue_write[OF assms(2)]
proof (rule ue_trans)
  fix a assume "a < length st" "a \<in> addrs r" "X (st ! a)"
  with assms(3) show "a \<in> {}" by auto
qed

lemma whileM_inv:
  assumes run: "whileM c b s = Some (Ok s')" and init: "I s"
    and step: "\<And>s s'. I s \<Longrightarrow> c s \<Longrightarrow> b s = Some (Ok s') \<Longrightarrow> I s'"
  shows "I s'"
proof -
  have "c = c \<longrightarrow> b = b \<longrightarrow> (\<forall>t. Ok s' = Ok t \<longrightarrow> I s \<longrightarrow> I t)"
  proof (rule whileM.raw_induct[where P = "\<lambda>c' b' s y. c' = c \<longrightarrow> b' = b \<longrightarrow> (\<forall>t. y = Ok t \<longrightarrow> I s \<longrightarrow> I t)", OF _ run], goal_cases)
    case (1 w c' b' s y)
    show ?case
    proof (intro impI allI)
      fix t
      assume eq: "c' = c" "b' = b" and y: "y = Ok t" and I: "I s"
      show "I t"
      proof (cases "c s")
        case False
        with 1(2) eq I y show ?thesis by simp
      next
        case True
        with 1(2) eq y have "bnd (b s) (w c b) = Some (Ok t)" by simp
        from bnd_Some_Ok[OF this] obtain x where x: "b s = Some (Ok x)" "w c b x = Some (Ok t)"
          by blast
        from step[OF I True x(1)] have "I x" .
        with 1(1)[OF x(2)] show ?thesis by simp
      qed
    qed
  qed
  with init show ?thesis by simp
qed

lemma forEachM_inv:
  assumes run: "forEachM body xs s = Some (Ok s')" and init: "I s"
    and step: "\<And>x s s'. x \<in> set xs \<Longrightarrow> I s \<Longrightarrow> body x s = Some (Ok s') \<Longrightarrow> I s'"
  shows "I s'"
  using assms
proof (induction xs arbitrary: s)
  case Nil
  then show ?case by simp
next
  case (Cons x xs)
  from Cons.prems(1) have "bnd (body x s) (forEachM body xs) = Some (Ok s')" by simp
  from bnd_Some_Ok[OF this] obtain s1 where s1:
    "body x s = Some (Ok s1)" "forEachM body xs s1 = Some (Ok s')" by blast
  have s1I: "I s1" using Cons.prems(3)[OF _ Cons.prems(2) s1(1)] by simp
  show ?case
  proof (rule Cons.IH[OF s1(2) s1I])
    fix y t t' assume "y \<in> set xs" "I t" "body y t = Some (Ok t')"
    then show "I t'" using Cons.prems(3)[of y t t'] by simp
  qed
qed

lemma composite_cell:
  assumes "getObjectType_st st obj = ''array'' \<or> getObjectType_st st obj = ''object''"
  shows "\<exists>a c c'. obj = Ref a \<and> a < length st \<and> st ! a = c \<and> plain_cell c
           \<and> copyOf_st st obj = (Ref (length st), st @ [c'])"
  using assms
  by (cases obj) (auto simp: cell_at_def alloc_def split: if_splits cell.splits)

lemma not_composite_copy:
  assumes "getObjectType_st st obj \<noteq> ''array''" and "getObjectType_st st obj \<noteq> ''object''"
  shows "copyOf_st st obj = (obj, st)"
    and "\<forall>a\<in>addrs obj. a < length st \<longrightarrow> \<not> plain_cell (st ! a)"
  using assms
  by (cases obj; auto simp: cell_at_def split: if_splits cell.splits)+

lemma fdp_st_frame:
  assumes run: "findDirectPropInObject_st st obj prop cbr args = Some (Ok (r, st'))"
  shows "unchanged_except X (chg obj cbr args) st st'"
proof -
  have "\<forall>r' st''. Ok (r, st') = Ok (r', st'') \<longrightarrow> unchanged_except X (chg obj cbr args) st st''"
  proof (rule findDirectPropInObject_st.raw_induct[where P = "\<lambda>st obj prop cbr args y.
          \<forall>r st'. y = Ok (r, st') \<longrightarrow> unchanged_except X (chg obj cbr args) st st'", OF _ run],
      goal_cases)
    case (1 f st obj pr cbr args y)
    note IH = 1(1) and body = 1(2)
    show ?case
    proof (intro allI impI)
      fix r st'
      assume y: "y = Ok (r, st')"
      show "unchanged_except X (chg obj cbr args) st st'"
      proof (cases "getObjectType_st st obj \<noteq> ''array'' \<and> getObjectType_st st obj \<noteq> ''object''")
        case True
        with body y show ?thesis by (auto simp: Let_def)
      next
        case False
        then have comp: "getObjectType_st st obj = ''array'' \<or> getObjectType_st st obj = ''object''"
          by auto
        from composite_cell[OF comp] obtain a c' where obj: "obj = Ref a" "a < length st"
          and cp: "copyOf_st st obj = (Ref (length st), st @ [c'])" by blast
        define result where "result = (if cbr then obj else Ref (length st))"
        define st1 where "st1 = (if cbr then st else st @ [c'])"
        have copy: "(if \<not> cbr then copyOf_st st obj else (obj, st)) = (result, st1)"
          by (simp add: cp result_def st1_def)
        have wr: "unchanged_except X (chg obj cbr args) st s'"
          if "unchanged_except X (addrs result) st1 s'" "args \<noteq> None" for s'
        proof (cases cbr)
          case True
          with that show ?thesis by (simp add: chg_def result_def st1_def)
        next
          case False
          with that have "unchanged_except X {length st} (st @ [c']) s'"
            by (simp add: result_def st1_def)
          then show ?thesis by (rule ue_fresh)
        qed
        have rd: "unchanged_except X (chg obj cbr args) st s'" if "unchanged_except X {} st1 s'" for s'
        proof (cases cbr)
          case True
          with that show ?thesis by (auto simp: st1_def intro: ue_mono)
        next
          case False
          with that have "unchanged_except X {length st} (st @ [c']) s'"
            by (auto simp: st1_def intro: ue_mono)
          then show ?thesis by (rule ue_fresh)
        qed
        have IH1: "unchanged_except X (addrs result) s s'"
          if "f s result p cbr' (Some v) = Some (Ok (r, s'))" "cbr' = True \<or> cbr' = cbr"
          for s p cbr' v r s'
        proof -
          from IH[OF that(1)] have "unchanged_except X (chg result cbr' (Some v)) s s'" by simp
          then show ?thesis by (auto simp: chg_def intro: ue_mono split: if_splits)
        qed
        from False have nc:
          "(getObjectType_st st obj \<noteq> ''array'' \<and> getObjectType_st st obj \<noteq> ''object'') = False"
          by simp
        have rest:
          "(if pr = PStr [] then
              (if \<not> Option.is_none args then Some (Ok (result, st1)) else Some (Ok (RUndefined, st1)))
            else if pr = PStr ''*'' then
              (case args of
                 Some value \<Rightarrow>
                   if getObjectType_st st obj = ''array'' then
                     (if is_undefined_st value then
                        bnd (whileM (\<lambda>st. arr_length_st st result \<noteq> 0)
                               (\<lambda>st. bnd (f st result (PNum 0) True (Some value))
                                       (\<lambda>(r, st). Some (Ok st)))
                               st1)
                          (\<lambda>st. Some (Ok (result, st)))
                      else
                        bnd (forEachM (\<lambda>index st.
                               if has_index_st st result index then
                                 (bnd (case value of
                                         RTrans f \<Rightarrow>
                                           bnd (Some (prop_read_st st result (PNum (arr_length_st st1 result - 1 - index))))
                                             (\<lambda>item. Some (Ok (f item)))
                                       | RLit v \<Rightarrow> Some (Ok v))
                                    (\<lambda>itemValue.
                                       if itemValue = RUndefined then
                                         bnd (f st result (PNum (arr_length_st st1 result - 1 - index)) True
                                                (Some (RLit RUndefined)))
                                           (\<lambda>(r, st). Some (Ok st))
                                       else
                                         bnd (f st result (PNum (arr_length_st st1 result - 1 - index)) cbr
                                                (Some (RLit itemValue)))
                                           (\<lambda>(newResult, st).
                                              bnd (Some (prop_read_st st newResult (PNum (arr_length_st st1 result - 1 - index))))
                                                (\<lambda>v. Some (prop_write_st st result (PNum (arr_length_st st1 result - 1 - index)) v)))))
                               else Some (Ok st))
                             [0..<arr_length_st st1 result] st1)
                          (\<lambda>st. Some (Ok (result, st))))
                   else
                     bnd (forEachM (\<lambda>key st.
                             bnd (f st result (PStr key) True (Some value))
                               (\<lambda>(r, st). Some (Ok st)))
                           (object_keys_st st1 result) st1)
                       (\<lambda>st. Some (Ok (result, st)))
               | None \<Rightarrow>
                   if getObjectType_st st obj = ''array'' then Some (Ok (result, st1))
                   else Some (Ok (alloc st1 (CArr (map Some (object_values_st st1 result)) []))))
            else
              (case args of
                 Some value \<Rightarrow>
                   bnd (case value of
                          RTrans f \<Rightarrow>
                            bnd (Some (prop_read_st st1 result pr)) (\<lambda>cur. Some (Ok (f cur)))
                        | RLit v \<Rightarrow> Some (Ok v))
                     (\<lambda>replaceWith.
                        bnd (Some (if replaceWith = RUndefined \<and> getObjectType_st st obj = ''array''
                                   then splice_st st1 result pr
                                   else if replaceWith = RUndefined
                                           \<and> getObjectType_st st obj = ''object''
                                   then delete_st st1 result pr
                                   else prop_write_st st1 result pr replaceWith))
                          (\<lambda>st. Some (Ok (result, st))))
               | None \<Rightarrow> bnd (Some (prop_read_st st1 result pr)) (\<lambda>v. Some (Ok (v, st1)))))
           = Some (Ok (r, st'))"
          using body unfolding Let_def nc if_False copy prod.case y .
        show ?thesis
        proof (cases args)
          case None
          with rest have "st' = st1 \<or> st' = st1 @ [CArr (map Some (object_values_st st1 result)) []]"
            by (auto simp: alloc_def split: if_splits dest!: bnd_Some_Ok)
          then have "unchanged_except X {} st1 st'" by (auto intro: ue_alloc)
          then show ?thesis by (rule rd)
        next
          case (Some vl)
          have "unchanged_except X (addrs result) st1 st'"
          proof (cases "pr = PStr []")
            case True
            with rest Some show ?thesis by auto
          next
            case ne: False
            show ?thesis
            proof (cases "pr = PStr ''*''")
              case False
              with rest Some ne obtain rw where
                "(if rw = RUndefined \<and> getObjectType_st st obj = ''array''
                  then splice_st st1 result pr
                  else if rw = RUndefined \<and> getObjectType_st st obj = ''object''
                  then delete_st st1 result pr
                  else prop_write_st st1 result pr rw) = Ok st'"
                by (auto dest!: bnd_Some_Ok)
              then show ?thesis
                by (auto split: if_splits intro: ue_splice ue_delete ue_write)
            next
              case star: True
              show ?thesis
              proof (cases "getObjectType_st st obj = ''array''")
                case False
                with rest Some ne star have
                  "forEachM (\<lambda>key st.
                             bnd (f st result (PStr key) True (Some vl))
                               (\<lambda>(r, st). Some (Ok st)))
                           (object_keys_st st1 result) st1 = Some (Ok st')"
                  by (auto dest!: bnd_Some_Ok)
                then show ?thesis
                proof (rule forEachM_inv[where I = "unchanged_except X (addrs result) st1"],
                    goal_cases)
                  case 1
                  show ?case by simp
                next
                  case (2 x s s')
                  from bnd_Some_Ok[OF 2(3)] obtain r where
                    "f s result (PStr x) True (Some vl) = Some (Ok (r, s'))"
                    by auto
                  from IH1[OF this] 2(2) show ?case by (auto intro: ue_trans_same)
                qed
              next
                case arr: True
                show ?thesis
                proof (cases "is_undefined_st vl")
                  case True
                  with rest Some ne star arr have
                    "whileM (\<lambda>st. arr_length_st st result \<noteq> 0)
                               (\<lambda>st. bnd (f st result (PNum 0) True (Some vl))
                                       (\<lambda>(r, st). Some (Ok st)))
                               st1 = Some (Ok st')"
                    by (auto dest!: bnd_Some_Ok)
                  then show ?thesis
                  proof (rule whileM_inv[where I = "unchanged_except X (addrs result) st1"],
                      goal_cases)
                    case 1
                    show ?case by simp
                  next
                    case (2 s s')
                    from bnd_Some_Ok[OF 2(3)] obtain r where
                      "f s result (PNum 0) True (Some vl) = Some (Ok (r, s'))"
                      by auto
                    from IH1[OF this] 2(1) show ?case by (auto intro: ue_trans_same)
                  qed
                next
                  case False
                  with rest Some ne star arr have
                    "forEachM (\<lambda>index st.
                               if has_index_st st result index then
                                 (bnd (case vl of
                                         RTrans f \<Rightarrow>
                                           bnd (Some (prop_read_st st result (PNum (arr_length_st st1 result - 1 - index))))
                                             (\<lambda>item. Some (Ok (f item)))
                                       | RLit v \<Rightarrow> Some (Ok v))
                                    (\<lambda>itemValue.
                                       if itemValue = RUndefined then
                                         bnd (f st result (PNum (arr_length_st st1 result - 1 - index)) True
                                                (Some (RLit RUndefined)))
                                           (\<lambda>(r, st). Some (Ok st))
                                       else
                                         bnd (f st result (PNum (arr_length_st st1 result - 1 - index)) cbr
                                                (Some (RLit itemValue)))
                                           (\<lambda>(newResult, st).
                                              bnd (Some (prop_read_st st newResult (PNum (arr_length_st st1 result - 1 - index))))
                                                (\<lambda>v. Some (prop_write_st st result (PNum (arr_length_st st1 result - 1 - index)) v)))))
                               else Some (Ok st))
                             [0..<arr_length_st st1 result] st1 = Some (Ok st')"
                    by (auto dest!: bnd_Some_Ok)
                  then show ?thesis
                  proof (rule forEachM_inv[where I = "unchanged_except X (addrs result) st1"],
                      goal_cases)
                    case 1
                    show ?case by simp
                  next
                    case (2 x s s')
                    show ?case
                    proof (cases "has_index_st s result x")
                      case False
                      with 2 show ?thesis by simp
                    next
                      case True
                      with 2(3) obtain iv where iv:
                        "(if iv = RUndefined then
                            bnd (f s result (PNum (arr_length_st st1 result - 1 - x)) True
                                   (Some (RLit RUndefined)))
                              (\<lambda>(r, st). Some (Ok st))
                          else
                            bnd (f s result (PNum (arr_length_st st1 result - 1 - x)) cbr
                                   (Some (RLit iv)))
                              (\<lambda>(newResult, st).
                                 bnd (Some (prop_read_st st newResult
                                        (PNum (arr_length_st st1 result - 1 - x))))
                                   (\<lambda>v. Some (prop_write_st st result
                                        (PNum (arr_length_st st1 result - 1 - x)) v))))
                           = Some (Ok s')"
                        by (auto dest!: bnd_Some_Ok)
                      show ?thesis
                      proof (cases "iv = RUndefined")
                        case True
                        with iv obtain r i where
                          "f s result (PNum i) True (Some (RLit RUndefined)) = Some (Ok (r, s'))"
                          by (auto dest!: bnd_Some_Ok)
                        from IH1[OF this] 2(2) show ?thesis by (auto intro: ue_trans_same)
                      next
                        case False
                        with iv obtain i v s'' nr v' where upd:
                          "f s result (PNum i) cbr (Some (RLit v)) = Some (Ok (nr, s''))"
                          "prop_write_st s'' result (PNum i) v' = Ok s'"
                          by (auto dest!: bnd_Some_Ok)
                        from IH1[OF upd(1)] have "unchanged_except X (addrs result) s s''" by simp
                        with 2(2) ue_write[OF upd(2)] show ?thesis
                          by (blast intro: ue_trans_same)
                      qed
                    qed
                  qed
                qed
              qed
            qed
          qed
          then show ?thesis using Some by (intro wr) simp_all
        qed
      qed
    qed
  qed
  then show ?thesis by simp
qed

lemma fpo_st_frame:
  assumes "findPropInObject_st st obj p cbr args = Some (Ok (r, st'))" and "\<not> cbr \<or> args = None"
    and "args \<noteq> None \<Longrightarrow> \<forall>c. X c \<longrightarrow> plain_cell c"
  shows "unchanged_except X {} st st'"
  using assms
proof (induction "length p" arbitrary: st obj p r st' rule: less_induct)
  case less
  let ?ty = "getObjectType_st st obj"
  let ?rem = "join_dots (tl (parsePath p))"
  let ?seg = "hd (parsePath p)"
  note run = less.prems(1) and mode = less.prems(2) and sort = less.prems(3)
  show ?case
  proof (cases "length (parsePath p) = 1")
    case True
    with run have "findDirectPropInObject_st st obj (PStr ?seg) cbr args = Some (Ok (r, st'))"
      by (subst (asm) findPropInObject_st.simps) (simp add: Let_def)
    from fdp_st_frame[OF this] mode show ?thesis by (auto simp: chg_def)
  next
    case False
    then have nlen: "(length (parsePath p) = 1) = False" by simp
    have IH: "unchanged_except X {} s s'"
      if "findPropInObject_st s item ?rem cbr args = Some (Ok (z, s'))" for s item z s'
      using less.hyps[OF remaining_shorter[OF False] that mode sort] .
    obtain result st1 where copy: "(if \<not> cbr then copyOf_st st obj else (obj, st)) = (result, st1)"
      and st1: "unchanged_except X {} st st1"
      and wok: "\<not> cbr \<Longrightarrow> \<forall>a\<in>addrs result. a < length st \<longrightarrow> \<not> plain_cell (st ! a)"
    proof (cases "\<not> cbr \<and> (?ty = ''array'' \<or> ?ty = ''object'')")
      case True
      then have "?ty = ''array'' \<or> ?ty = ''object''" by simp
      from composite_cell[OF this] obtain c' where
        "copyOf_st st obj = (Ref (length st), st @ [c'])" by blast
      with True that[of "Ref (length st)" "st @ [c']"] show ?thesis by (simp add: ue_alloc)
    next
      case False
      show ?thesis
      proof (cases cbr)
        case True
        with that[of obj st] show ?thesis by simp
      next
        case nc: False
        with False have t: "?ty \<noteq> ''array''" "?ty \<noteq> ''object''" by simp_all
        from not_composite_copy[OF t] nc that[of obj st] show ?thesis by simp
      qed
    qed
    have step: "unchanged_except X {} st s'"
      if "unchanged_except X {} st s" "findPropInObject_st s item ?rem cbr args = Some (Ok (z, s'))"
      for s item z s'
      using that(1) IH[OF that(2)] by (auto intro: ue_trans)
    have wstep: "unchanged_except X {} st s'"
      if "unchanged_except X {} st s" "prop_write_st s result k v = Ok s'" "\<not> cbr"
        "args \<noteq> None" for s k v s'
    proof -
      from wok[OF that(3)] sort[OF that(4)]
      have "\<forall>a\<in>addrs result. a < length st \<longrightarrow> \<not> X (st ! a)" by blast
      with that(1,2) show ?thesis by (rule ue_write_other)
    qed
    note body = run[unfolded findPropInObject_st.simps[of st obj p cbr args]]
    have rest:
      "(case args of
          Some vl \<Rightarrow>
            if ?seg = ''*'' then
              (if ?ty = ''array'' then
                 bnd (forEachM (\<lambda>index st.
                         if has_index_st st result index then
                           bnd (Some (prop_read_st st result (PNum index)))
                             (\<lambda>item. bnd (findPropInObject_st st item ?rem cbr args)
                                (\<lambda>(r, st). Some (prop_write_st st result (PNum index) r)))
                         else Some (Ok st))
                       [0..<arr_length_st st1 result] st1)
                   (\<lambda>st. Some (Ok (result, st)))
               else if ?ty = ''object'' then
                 bnd (forEachM (\<lambda>key st.
                         bnd (Some (prop_read_st st result (PStr key)))
                           (\<lambda>item. bnd (findPropInObject_st st item ?rem cbr args)
                              (\<lambda>(r, st). Some (prop_write_st st result (PStr key) r))))
                       (object_keys_st st1 result) st1)
                   (\<lambda>st. Some (Ok (result, st)))
               else Some (Ok (result, st1)))
            else
              bnd (Some (prop_read_st st1 result (PStr ?seg)))
                (\<lambda>cur. bnd (if cur = RUndefined then
                               (case alloc st1 (CObj []) of (e, st) \<Rightarrow>
                                  Some (prop_write_st st result (PStr ?seg) e))
                             else Some (Ok st1))
                   (\<lambda>st. bnd (Some (prop_read_st st result (PStr ?seg)))
                      (\<lambda>cur. bnd (findPropInObject_st st cur ?rem cbr args)
                         (\<lambda>(r, st). bnd (Some (prop_write_st st result (PStr ?seg) r))
                            (\<lambda>st. Some (Ok (result, st)))))))
        | None \<Rightarrow>
            if ?seg = ''*'' \<and> ?ty = ''array'' then
              bnd (forEachM (\<lambda>index (rs, st).
                      if has_index_st st result index then
                        bnd (Some (prop_read_st st result (PNum index)))
                          (\<lambda>item. bnd (findPropInObject_st st item ?rem cbr None)
                             (\<lambda>(r, st). Some (Ok (rs @ [Some r], st))))
                      else Some (Ok (rs @ [None], st)))
                    [0..<arr_length_st st1 result] ([], st1))
                (\<lambda>(rs, st). Some (Ok (alloc st (CArr rs []))))
            else if ?seg = ''*'' \<and> ?ty = ''object'' then
              bnd (forEachM (\<lambda>item (rs, st).
                      bnd (findPropInObject_st st item ?rem cbr None)
                        (\<lambda>(r, st). Some (Ok (rs @ [Some r], st))))
                    (object_values_st st1 result) ([], st1))
                (\<lambda>(rs, st). Some (Ok (alloc st (CArr rs []))))
            else
              bnd (Some (prop_read_st st1 result (PStr ?seg)))
                (\<lambda>cur. if falsy_st cur then
                          (case alloc st1 (CObj []) of (e, st) \<Rightarrow>
                             findPropInObject_st st e ?rem cbr None)
                        else findPropInObject_st st1 cur ?rem cbr None))
         = Some (Ok (r, st'))"
      using body unfolding Let_def nlen if_False copy prod.case .
    show ?thesis
    proof (cases args)
      case None
      note IHn = IH[unfolded None] and stepn = step[unfolded None]
      show ?thesis
      proof (cases "?seg = ''*'' \<and> (?ty = ''array'' \<or> ?ty = ''object'')")
        case False
        with rest None consider
          (a) "findPropInObject_st (st1 @ [CObj []]) (Ref (length st1)) ?rem cbr None
                 = Some (Ok (r, st'))"
        | (b) cur where "findPropInObject_st st1 cur ?rem cbr None = Some (Ok (r, st'))"
          by (auto simp: alloc_def split: if_splits dest!: bnd_Some_Ok)
        then show ?thesis
        proof cases
          case a
          from IHn[OF a] ue_alloc_after[OF st1] show ?thesis by (auto intro: ue_trans)
        next
          case b
          from IHn[OF b] st1 show ?thesis by (auto intro: ue_trans)
        qed
      next
        case True
        then consider (arr) "?seg = ''*''" "?ty = ''array''" | (obj) "?seg = ''*''" "?ty = ''object''"
          by auto
        then obtain rs s2 where fin: "unchanged_except X {} st s2" "(r, st') = alloc s2 (CArr rs [])"
        proof cases
          case arr
          with rest None obtain rs s2 where s2:
            "forEachM (\<lambda>index (rs, st).
                      if has_index_st st result index then
                        bnd (Some (prop_read_st st result (PNum index)))
                          (\<lambda>item. bnd (findPropInObject_st st item ?rem cbr None)
                             (\<lambda>(r, st). Some (Ok (rs @ [Some r], st))))
                      else Some (Ok (rs @ [None], st)))
                    [0..<arr_length_st st1 result] ([], st1) = Some (Ok (rs, s2))"
            "(r, st') = alloc s2 (CArr rs [])"
            by (auto dest!: bnd_Some_Ok)
          have "unchanged_except X {} st (snd (rs, s2))"
          proof (rule forEachM_inv[OF s2(1), where I = "\<lambda>z. unchanged_except X {} st (snd z)"],
              goal_cases)
            case 1
            show ?case using st1 by simp
          next
            case (2 x s s')
            then show ?case
              by (cases s) (auto split: if_splits dest!: bnd_Some_Ok intro: stepn)
          qed
          with s2(2) that show ?thesis by simp
        next
          case obj
          with rest None obtain rs s2 where s2:
            "forEachM (\<lambda>item (rs, st).
                      bnd (findPropInObject_st st item ?rem cbr None)
                        (\<lambda>(r, st). Some (Ok (rs @ [Some r], st))))
                    (object_values_st st1 result) ([], st1) = Some (Ok (rs, s2))"
            "(r, st') = alloc s2 (CArr rs [])"
            by (auto dest!: bnd_Some_Ok)
          have "unchanged_except X {} st (snd (rs, s2))"
          proof (rule forEachM_inv[OF s2(1), where I = "\<lambda>z. unchanged_except X {} st (snd z)"],
              goal_cases)
            case 1
            show ?case using st1 by simp
          next
            case (2 x s s')
            then show ?case
              by (cases s) (auto split: if_splits dest!: bnd_Some_Ok intro: stepn)
          qed
          with s2(2) that show ?thesis by simp
        qed
        then show ?thesis by (simp add: alloc_def ue_alloc_after)
      qed
    next
      case (Some vl)
      with mode have nc: "\<not> cbr" by simp
      from Some have an: "args \<noteq> None" by simp
      show ?thesis
      proof (cases "?seg = ''*''")
        case False
        with rest Some obtain cur0 sa cur z sb where
          a: "(if cur0 = RUndefined
               then (case alloc st1 (CObj []) of (e, st) \<Rightarrow>
                       Some (prop_write_st st result (PStr ?seg) e))
               else Some (Ok st1)) = Some (Ok sa)"
          and b: "findPropInObject_st sa cur ?rem cbr args = Some (Ok (z, sb))"
          and c: "prop_write_st sb result (PStr ?seg) z = Ok st'"
          by (auto dest!: bnd_Some_Ok)
        have "unchanged_except X {} st sa"
        proof (cases "cur0 = RUndefined")
          case True
          with a wstep[OF ue_alloc_after[OF st1] _ nc an] show ?thesis by (simp add: alloc_def)
        next
          case False
          with a st1 show ?thesis by simp
        qed
        from wstep[OF step[OF this b] c nc an] show ?thesis .
      next
        case star: True
        show ?thesis
        proof (cases "?ty = ''array'' \<or> ?ty = ''object''")
          case False
          with rest Some star st1 show ?thesis by auto
        next
          case True
          then consider (arr) "?ty = ''array''" | (obj) "?ty = ''object''" "?ty \<noteq> ''array''" by auto
          then show ?thesis
          proof cases
            case arr
            with rest Some star have
              "forEachM (\<lambda>index st.
                         if has_index_st st result index then
                           bnd (Some (prop_read_st st result (PNum index)))
                             (\<lambda>item. bnd (findPropInObject_st st item ?rem cbr args)
                                (\<lambda>(r, st). Some (prop_write_st st result (PNum index) r)))
                         else Some (Ok st))
                       [0..<arr_length_st st1 result] st1 = Some (Ok st')"
              by (auto dest!: bnd_Some_Ok)
            then show ?thesis
            proof (rule forEachM_inv[where I = "unchanged_except X {} st"], goal_cases)
              case 1
              show ?case by (rule st1)
            next
              case (2 x s s')
              then show ?case
                by (auto split: if_splits dest!: bnd_Some_Ok intro: wstep[OF step _ nc an])
            qed
          next
            case obj
            with rest Some star have
              "forEachM (\<lambda>key st.
                         bnd (Some (prop_read_st st result (PStr key)))
                           (\<lambda>item. bnd (findPropInObject_st st item ?rem cbr args)
                              (\<lambda>(r, st). Some (prop_write_st st result (PStr key) r))))
                       (object_keys_st st1 result) st1 = Some (Ok st')"
              by (auto dest!: bnd_Some_Ok)
            then show ?thesis
            proof (rule forEachM_inv[where I = "unchanged_except X {} st"], goal_cases)
              case 1
              show ?case by (rule st1)
            next
              case (2 x s s')
              then show ?case
                by (auto split: if_splits dest!: bnd_Some_Ok intro: wstep[OF step _ nc an])
            qed
          qed
        qed
      qed
    qed
  qed
qed

lemma ue_kept: "unchanged_except plain_cell {} st st' \<Longrightarrow> kept st st'"
  unfolding unchanged_except_def kept_def by simp





lemma merge_st_frame:
  assumes "mergeObjects_st st objA objB = Some (Ok (r, st'))"
  shows "kept st st'"
proof -
  from assms obtain keys c where run:
    "forEachM (\<lambda>next (prev, st).
         bnd (Some (prop_read_st st objB (PStr next)))
           (\<lambda>v. findPropInObject_st st prev next False (Some (RLit v))))
       keys (alloc st c) = Some (Ok (r, st'))"
    by (auto simp: mergeObjects_st_def dest!: bnd_Some_Ok)
  have "unchanged_except plain_cell {} st (snd (r, st'))"
  proof (rule forEachM_inv[OF run, where I = "\<lambda>z. unchanged_except plain_cell {} st (snd z)"],
      goal_cases)
    case 1
    show ?case by (simp add: alloc_def ue_alloc)
  next
    case (2 x s s')
    obtain prev s0 where s: "s = (prev, s0)" by (cases s)
    obtain r1 s1 where s': "s' = (r1, s1)" by (cases s')
    from 2(3) s s' obtain v where
      "findPropInObject_st s0 prev x False (Some (RLit v)) = Some (Ok (r1, s1))"
      by (auto dest!: bnd_Some_Ok)
    from fpo_st_frame[OF this, of plain_cell] 2(2) s s' show ?case by (auto intro: ue_trans)
  qed
  then show ?thesis by (simp add: ue_kept)
qed

section \<open>A write that returns\<close>


lemma object_cell_type:
  "a < length st \<Longrightarrow> st ! a = CObj kvs \<Longrightarrow>
     getObjectType_st st (Ref a) = ''object'' \<and> object_entries_st st (Ref a) = kvs"
  by (simp add: cell_at_def)









section \<open>Examples\<close>

lemma example_wildcard_read:
  "findPropInObject
     (Obj [(''data'', Obj [(''entries'',
        Arr [Some (Obj [(''title'', Str ''x'')]), Some (Obj [(''title'', Str ''y'')])] [])])])
     ''data.entries[*].title'' False None
   = Some (Ok (Arr [Some (Str ''x''), Some (Str ''y'')] []))"
  by code_simp

lemma example_write:
  "findPropInObject
     (Obj [(''data'', Obj [(''entries'',
        Arr [Some (Obj [(''title'', Str ''x'')]), Some (Obj [(''title'', Str ''y'')])] [])])])
     ''data.entries[0].title'' False (Some (Lit (Str ''z'')))
   = Some (Ok (Obj [(''data'', Obj [(''entries'',
        Arr [Some (Obj [(''title'', Str ''z'')]), Some (Obj [(''title'', Str ''y'')])] [])])]))"
  by code_simp

text \<open>
  A transformer that returns \<open>undefined\<close> for every element does not empty the array: the
  rounds that come after the array has shrunk find no index to visit.
\<close>

lemma example_wildcard_transformer:
  "findPropInObject (Arr [Some (Num 1), Some (Num 2), Some (Num 3)] []) ''*'' False
     (Some (Trans (\<lambda>v. Undefined)))
   = Some (Ok (Arr [Some (Num 1)] []))"
  by code_simp

text \<open>A write past the end of an array leaves empty slots behind.\<close>

lemma example_write_past_end:
  "findPropInObject (Arr [Some (Num 1)] []) ''3.a'' False (Some (Lit (Num 1)))
   = Some (Ok (Arr [Some (Num 1), None, None, Some (Obj [(''a'', Num 1)])] []))"
  by code_simp

text \<open>
  A path that finds an inherited member is outside these values: \<open>constructor\<close> on the empty
  object is the function \<open>Object\<close>, and reading \<open>toString\<close> yields a function.
\<close>

lemma example_inherited_member:
  "findPropInObject (Obj []) ''constructor.b'' False (Some (Lit (Num 1))) = Some Outside
   \<and> findPropInObject (Obj [(''a'', Num 1)]) ''toString'' False None = Some Outside
   \<and> findPropInObject (Obj [(''a'', Num 1)]) ''toString'' False (Some (Lit Undefined))
       = Some (Ok (Obj [(''a'', Num 1)]))"
  by code_simp

text \<open>A named property of an array is seen in place and lost in the spread copy.\<close>

lemma example_named_property_of_array:
  "findPropInObject (Arr [] [(''foo'', Num 1)]) ''foo'' True None = Some (Ok (Num 1))
   \<and> findPropInObject (Arr [] [(''foo'', Num 1)]) ''foo'' False None = Some (Ok Undefined)"
  by code_simp

text \<open>The host enumerates an index key before the other keys.\<close>

lemma example_key_order:
  "findPropInObject (Obj [(''0'', Num 0), (''2'', Num 0), (''b'', Num 0)]) ''1'' False
     (Some (Lit (Num 5)))
   = Some (Ok (Obj [(''0'', Num 0), (''1'', Num 5), (''2'', Num 0), (''b'', Num 0)]))"
  by code_simp

lemma example_toString:
  "toString (Arr [Some (Num 1), None, Some (Arr [Some Null, Some (Str ''x'')] []), Some (Obj [])] [])
   = Ok ''1,,,x,[object Object]''"
  by code_simp

text \<open>
  Over the store: a wildcard write with \<open>copyByRef = false\<close> leaves the two cells it was given
  as they were and returns a new root; with \<open>copyByRef = true\<close> the same write updates the
  array in place.
\<close>

lemma example_store_wildcard_write:
  "findPropInObject_st [CObj [(''a'', Ref 1)], CArr [Some (RNum 1), Some (RNum 2)] []] (Ref 0)
     ''a.*'' False (Some (RLit (RNum 7)))
   = Some (Ok (Ref 2, [CObj [(''a'', Ref 1)], CArr [Some (RNum 1), Some (RNum 2)] [],
                       CObj [(''a'', Ref 3)], CArr [Some (RNum 7), Some (RNum 7)] [],
                       CArr [Some (RNum 1), Some (RNum 7)] [],
                       CArr [Some (RNum 7), Some (RNum 7)] []]))"
  by code_simp

lemma example_store_in_place:
  "findPropInObject_st [CObj [(''a'', Ref 1)], CArr [Some (RNum 1), Some (RNum 2)] []] (Ref 0)
     ''a.*'' True (Some (RLit (RNum 7)))
   = Some (Ok (Ref 0, [CObj [(''a'', Ref 1)], CArr [Some (RNum 7), Some (RNum 7)] []]))"
  by code_simp

section \<open>Properties\<close>

text \<open>
  C7. On every array, the single-segment wildcard write of \<open>undefined\<close> returns the empty
  array, in either copy mode: the loop removes the first element until none is left, so
  no element is skipped. The array returned in place keeps its named properties; the copy
  has none.
\<close>

theorem wildcard_delete_empties_array:
  "findPropInObject (Arr xs ps) ''*'' copyByRef (Some (Lit Undefined))
     = Some (Ok (Arr [] (if copyByRef then ps else [])))"
  by (subst findPropInObject.simps) (simp add: Let_def parsePath_star fdp_wildcard_delete_array)

theorem wildcard_delete_empties_array_witness:
  "findPropInObject (Arr [Some (Num 1), Some (Num 2), Some (Num 3)] []) ''*'' False
     (Some (Lit Undefined)) = Some (Ok (Arr [] []))"
  using wildcard_delete_empties_array [of "[Some (Num 1), Some (Num 2), Some (Num 3)]" "[]" False]
  by simp

text \<open>
  C9 at its failing inputs. The deep copy of the plain object \<open>{toString: 1}\<close> has the same
  entry, and comparing it with the original raises: after the keys have compared equal,
  \<open>objA?.toString()\<close> calls the number 1. The deep copy of an array that ends with an empty
  slot is shorter than the original, and the two compare unequal. On a value without such
  entries, here \<open>{a: [1, {b: null}]}\<close>, the copy compares equal.
\<close>

theorem deepCopy_deepCompare_raises:
  "bind_res (deepCopy (Obj [(''toString'', Num 1)]))
     (\<lambda>copy. deepCompare copy (Obj [(''toString'', Num 1)])) = Raise
   \<and> deepCopy (Arr [Some (Num 1), None] []) = Ok (Arr [Some (Num 1)] [])
   \<and> bind_res (deepCopy (Arr [Some (Num 1), None] []))
       (\<lambda>copy. deepCompare copy (Arr [Some (Num 1), None] [])) = Ok False
   \<and> bind_res (deepCopy (Obj [(''a'', Arr [Some (Num 1), Some (Obj [(''b'', Null)])] [])]))
       (\<lambda>copy. deepCompare copy (Obj [(''a'', Arr [Some (Num 1), Some (Obj [(''b'', Null)])] [])]))
       = Ok True"
  by code_simp

text \<open>
  C10. \<open>deepCompare\<close> is not symmetric: \<open>{}\<close> compares equal to \<open>{a: 1}\<close> and \<open>{a: 1}\<close> does not
  compare equal to \<open>{}\<close>. More generally the empty object compares equal to every plain
  object that has no key \<open>toString\<close>, since no key is visited and any two such objects have
  the same string form, while an object with an entry that is not \<open>undefined\<close>, and whose
  keys are no inherited names, does not compare equal to the empty object.
\<close>

theorem deepCompare_not_symmetric:
  "deepCompare (Obj []) (Obj [(''a'', Num 1)]) = Ok True
   \<and> deepCompare (Obj [(''a'', Num 1)]) (Obj []) = Ok False
   \<and> (map_of kvs ''toString'' = None \<longrightarrow> deepCompare (Obj []) (Obj kvs) = Ok True)
   \<and> (list_all (\<lambda>k. \<not> inherited ''object'' k) (map fst kvs) \<and> map_of kvs k = Some v
        \<and> v \<noteq> Undefined \<longrightarrow> deepCompare (Obj kvs) (Obj []) = Ok False)
   \<and> (map_of kvs ''toString'' = None \<and> map_of kvs' ''toString'' = None
        \<longrightarrow> toString_opt (Obj kvs) = toString_opt (Obj kvs'))"
proof (intro conjI impI)
  show "deepCompare (Obj []) (Obj [(''a'', Num 1)]) = Ok True"
    by (rule deepCompare_empty_left) simp
  have ni: "\<not> inherited ''object'' ''a''"
    by (simp add: inherited_def members_of_def object_members_def)
  show "deepCompare (Obj [(''a'', Num 1)]) (Obj []) = Ok False"
    by (rule deepCompare_empty_right[where k = "''a''" and v = "Num 1"]) (simp_all add: ni)
  show "deepCompare (Obj []) (Obj kvs) = Ok True" if "map_of kvs ''toString'' = None"
    using that by (rule deepCompare_empty_left)
  show "deepCompare (Obj kvs) (Obj []) = Ok False"
    if "list_all (\<lambda>k. \<not> inherited ''object'' k) (map fst kvs) \<and> map_of kvs k = Some v
        \<and> v \<noteq> Undefined"
    using that by (auto intro: deepCompare_empty_right)
  show "toString_opt (Obj kvs) = toString_opt (Obj kvs')"
    if "map_of kvs ''toString'' = None \<and> map_of kvs' ''toString'' = None"
    using that by (simp add: toString_opt_def)
qed

theorem deepCompare_not_symmetric_witness:
  "map_of [(''b'', Num 2)] ''toString'' = None
   \<and> list_all (\<lambda>k. \<not> inherited ''object'' k) (map fst [(''b'', Num 2)])
   \<and> deepCompare (Obj []) (Obj [(''b'', Num 2)]) = Ok True
   \<and> deepCompare (Obj [(''b'', Num 2)]) (Obj []) = Ok False
   \<and> deepCompare (Obj []) (Obj [(''a'', Num 1)]) = Ok True
   \<and> deepCompare (Obj [(''a'', Num 1)]) (Obj []) = Ok False"
proof -
  have ni: "\<not> inherited ''object'' ''b''"
    by (simp add: inherited_def members_of_def object_members_def)
  from deepCompare_not_symmetric [of "[(''b'', Num 2)]" "''b''" "Num 2"] ni
  show ?thesis by simp
qed

text \<open>
  C5, as the code has it. A container that is neither an array nor a plain object comes
  back unchanged from a read and from a write when the path has one segment, in either
  copy mode, and from a write whose path has several segments and starts with the
  wildcard.
\<close>

theorem not_composite_unchanged:
  assumes "getObjectType container \<noteq> ''array''" and "getObjectType container \<noteq> ''object''"
  shows "(length (parsePath path) = 1 \<longrightarrow>
            findPropInObject container path copyByRef args = Some (Ok container))
       \<and> (length (parsePath path) \<noteq> 1 \<and> hd (parsePath path) = ''*'' \<longrightarrow>
            findPropInObject container path copyByRef (Some value) = Some (Ok container))"
  using assms
  by (simp add: fpo_single fdp_not_composite fpo_write_wildcard_not_composite)

theorem not_composite_unchanged_witness:
  "findPropInObject (Num 5) ''a'' False None = Some (Ok (Num 5))
   \<and> findPropInObject (Num 5) ''a'' False (Some (Lit (Num 1))) = Some (Ok (Num 5))
   \<and> findPropInObject Null ''*.a'' False (Some (Lit (Num 1))) = Some (Ok Null)"
  using not_composite_unchanged [of "Num 5" "''a''" False None]
    not_composite_unchanged [of "Num 5" "''a''" False "Some (Lit (Num 1))"]
    not_composite_unchanged [of Null "''*.a''" False _ "Lit (Num 1)"]
  by (simp add: parse_defs)

text \<open>
  C5 as stated fails on a path of two segments: reading \<open>a.b\<close> from the number 5 yields
  \<open>undefined\<close>, not 5.
\<close>

theorem not_composite_multi_segment_counterexample:
  "findPropInObject (Num 5) ''a.b'' False None = Some (Ok Undefined)
   \<and> findPropInObject (Num 5) ''a.b'' False None \<noteq> Some (Ok (Num 5))"
  by code_simp

text \<open>
  C4 at its failing input. Writing \<open>a.b.c\<close> into \<open>{a: null}\<close> raises (the write path reads a
  property of \<open>null\<close>), where the read of the same path returns \<open>undefined\<close>; reading \<open>a.b\<close>
  from the root \<open>null\<close> raises as well.
\<close>

theorem write_through_null_raises:
  "findPropInObject (Obj [(''a'', Null)]) ''a.b.c'' False (Some (Lit (Num 1))) = Some Raise
   \<and> findPropInObject (Obj [(''a'', Null)]) ''a.b.c'' False None = Some (Ok Undefined)
   \<and> findPropInObject Null ''a.b'' False None = Some Raise"
  by code_simp

theorem write_through_null_raises_witness:
  "findPropInObject (Obj [(''a'', Null)]) ''a.b.c'' False (Some (Lit (Num 1))) = Some Raise"
  using write_through_null_raises by simp

text \<open>
  C1, as the code has it. When the path is in order for the write of \<open>x\<close> into the root (no
  wildcard, a last segment that is not empty, arrays and plain objects only on the way,
  arrays addressed by index, no lookup that finds an inherited member, the last segment
  not \<open>__proto__\<close> unless the object has that key, and \<open>x\<close> not \<open>undefined\<close> if the last
  container is an array), the write succeeds and the read of the same path from its result
  yields \<open>x\<close>.
\<close>

theorem write_then_read:
  assumes "path_ok x root (parsePath path)"
  shows "\<exists>r. findPropInObject root path False (Some (Lit x)) = Some (Ok r)
           \<and> findPropInObject r path False None = Some (Ok x)"
  using round_trip_segs[OF refl assms] by blast

theorem write_then_read_witness:
  "path_ok (Str ''z'')
     (Obj [(''data'', Obj [(''entries'', Arr [Some (Obj [(''title'', Str ''x'')])] [])])])
     (parsePath ''data.entries[0].title'')
   \<and> (\<exists>r. findPropInObject
             (Obj [(''data'', Obj [(''entries'', Arr [Some (Obj [(''title'', Str ''x'')])] [])])])
             ''data.entries[0].title'' False (Some (Lit (Str ''z''))) = Some (Ok r)
          \<and> findPropInObject r ''data.entries[0].title'' False None = Some (Ok (Str ''z'')))"
proof -
  have h: "path_ok (Str ''z'')
     (Obj [(''data'', Obj [(''entries'', Arr [Some (Obj [(''title'', Str ''x'')])] [])])])
     (parsePath ''data.entries[0].title'')"
    by (simp add: parse_defs lookup_def index_defs object_slot_def array_slot_def)
  from write_then_read[OF h] h show ?thesis by simp
qed

text \<open>
  C1 as stated fails: a root that is no container is returned unchanged, so the read yields
  the root; the write of \<open>undefined\<close> at an array index splices, so the read yields the
  next element; the write at the empty path changes nothing and the read yields
  \<open>undefined\<close>; a named property written to an array is lost in the copy that the read
  makes; and the write of a primitive under \<open>__proto__\<close> stores nothing.
\<close>

theorem write_then_read_counterexample:
  "findPropInObject (Num 5) ''a'' False (Some (Lit (Num 1))) = Some (Ok (Num 5))
   \<and> findPropInObject (Num 5) ''a'' False None = Some (Ok (Num 5))
   \<and> findPropInObject (Arr [Some (Num 1), Some (Num 2), Some (Num 3)] []) ''0'' False
        (Some (Lit Undefined)) = Some (Ok (Arr [Some (Num 2), Some (Num 3)] []))
   \<and> findPropInObject (Arr [Some (Num 2), Some (Num 3)] []) ''0'' False None = Some (Ok (Num 2))
   \<and> findPropInObject (Obj []) '''' False (Some (Lit (Num 1))) = Some (Ok (Obj []))
   \<and> findPropInObject (Obj []) '''' False None = Some (Ok Undefined)
   \<and> findPropInObject (Arr [] []) ''foo'' False (Some (Lit (Num 1)))
        = Some (Ok (Arr [] [(''foo'', Num 1)]))
   \<and> findPropInObject (Arr [] [(''foo'', Num 1)]) ''foo'' False None = Some (Ok Undefined)
   \<and> findPropInObject (Obj []) ''__proto__'' False (Some (Lit (Num 1))) = Some (Ok (Obj []))"
  by code_simp







text \<open>
  C8, as the code has it. For plain objects \<open>base\<close> and \<open>fragment\<close>, when every key of the
  fragment is not empty, is not the wildcard and has no dot or bracket, the fragment has
  the key \<open>__proto__\<close> only if the base has it, and no value of the fragment is \<open>undefined\<close>,
  the merge is an object in which every key of the fragment has the fragment's value and
  every other key has what the base has there. Over the store, a merge leaves every array
  and plain object that it was given, the base among them, unchanged.
\<close>

theorem merge_overrides:
  assumes "list_all key_ok (map fst frag)" and "list_all (\<lambda>v. v \<noteq> Undefined) (map snd frag)"
    and "map_of frag ''__proto__'' \<noteq> None \<longrightarrow> map_of base ''__proto__'' \<noteq> None"
  shows "(\<exists>r. mergeObjects (Obj base) (Obj frag) = Some (Ok (Obj r))
           \<and> (\<forall>k. map_of r k = (case map_of frag k of Some v \<Rightarrow> Some v | None \<Rightarrow> map_of base k)))
       \<and> (mergeObjects_st st objA objB = Some (Ok (res, st')) \<longrightarrow> kept st st')"
  using merge_values[OF assms] merge_st_frame by blast

theorem merge_overrides_witness:
  "mergeObjects (Obj [(''a'', Num 1), (''b'', Num 2)]) (Obj [(''b'', Num 3), (''c'', Num 4)])
     = Some (Ok (Obj [(''a'', Num 1), (''b'', Num 3), (''c'', Num 4)]))
   \<and> (\<exists>r. mergeObjects (Obj [(''a'', Num 1), (''b'', Num 2)]) (Obj [(''b'', Num 3), (''c'', Num 4)])
            = Some (Ok (Obj r))
          \<and> map_of r ''a'' = Some (Num 1) \<and> map_of r ''b'' = Some (Num 3)
          \<and> map_of r ''c'' = Some (Num 4))
   \<and> kept [CObj [(''a'', RNum 1)], CObj [(''b'', RNum 2)]]
        [CObj [(''a'', RNum 1)], CObj [(''b'', RNum 2)], CObj [(''a'', RNum 1)],
         CObj [(''a'', RNum 1), (''b'', RNum 2)]]"
proof -
  have k: "key_ok ''b''" "key_ok ''c''" by (simp_all add: key_ok_def plain_char_def)
  have h1: "list_all key_ok (map fst [(''b'', Num 3), (''c'', Num 4)])" using k by simp
  have h2: "list_all (\<lambda>v. v \<noteq> Undefined) (map snd [(''b'', Num 3), (''c'', Num 4)])" by simp
  have h3: "map_of [(''b'', Num 3), (''c'', Num 4)] ''__proto__'' \<noteq> None
              \<longrightarrow> map_of [(''a'', Num 1), (''b'', Num 2)] ''__proto__'' \<noteq> None" by simp
  have e: "mergeObjects (Obj [(''a'', Num 1), (''b'', Num 2)]) (Obj [(''b'', Num 3), (''c'', Num 4)])
     = Some (Ok (Obj [(''a'', Num 1), (''b'', Num 3), (''c'', Num 4)]))"
    by code_simp
  have s: "mergeObjects_st [CObj [(''a'', RNum 1)], CObj [(''b'', RNum 2)]] (Ref 0) (Ref 1)
     = Some (Ok (Ref 3, [CObj [(''a'', RNum 1)], CObj [(''b'', RNum 2)], CObj [(''a'', RNum 1)],
                         CObj [(''a'', RNum 1), (''b'', RNum 2)]]))"
    by code_simp
  from merge_overrides[OF h1 h2 h3, of "[CObj [(''a'', RNum 1)], CObj [(''b'', RNum 2)]]" "Ref 0"
      "Ref 1" "Ref 3"] e s
  show ?thesis by auto
qed

text \<open>
  C8 as stated fails: a fragment key is a path, so the key \<open>*\<close> overwrites every entry of the
  base and is not added, and the empty key writes nothing; and the fragment value 1 under
  the key \<open>__proto__\<close> is not stored.
\<close>

theorem merge_overrides_counterexample:
  "mergeObjects (Obj [(''a'', Num 1)]) (Obj [(''*'', Num 2)]) = Some (Ok (Obj [(''a'', Num 2)]))
   \<and> mergeObjects (Obj []) (Obj [('''', Num 1)]) = Some (Ok (Obj []))
   \<and> mergeObjects (Obj []) (Obj [(''__proto__'', Num 1)]) = Some (Ok (Obj []))"
  by code_simp




end
